theory Spec2Isabelle
  imports Complex_Main "HOL-Library.AList" "HOL-Library.Sublist" "HOL-Library.Multiset"
begin

section \<open>Python values and the operations the scripts apply to them\<close>

text \<open>
  The scripts \<^verbatim>\<open>process_results.py\<close> and \<^verbatim>\<open>process_official_results.py\<close> read a
  document with \<^verbatim>\<open>json.load\<close> and walk it with \<^verbatim>\<open>.get\<close>, \<^verbatim>\<open>.items()\<close>, \<^verbatim>\<open>in\<close>,
  subscripts and \<^verbatim>\<open>for\<close> loops. A parsed document is a value of \<open>json\<close>; an object is
  the list of its items in insertion order (a Python \<^verbatim>\<open>dict\<close>, so its keys are distinct).
  Python floats are modelled as exact reals: rounding, overflow, \<^verbatim>\<open>nan\<close> and \<^verbatim>\<open>inf\<close> are
  outside the model. Every exception the walked code can raise is a value of
  \<open>py_error\<close>, and a function that can raise returns \<open>py_error + 'a\<close>.
\<close>

datatype py_error = AttributeError | TypeError | ValueError | KeyError | IndexError

datatype json =
    JNull
  | JBool bool
  | JInt int
  | JFloat real
  | JStr string
  | JArr "json list"
  | JObj "(string \<times> json) list"

text \<open>
  What the scripts take from outside the repository: the parsing of a string by the
  builtins \<^verbatim>\<open>float\<close> and \<^verbatim>\<open>int\<close> (\<open>None\<close> where they raise \<^verbatim>\<open>ValueError\<close>) and
  \<^verbatim>\<open>numpy.argsort\<close>, whose order among equal keys is not fixed by its default algorithm.
\<close>

record py_env =
  float_of_str :: "string \<Rightarrow> real option"
  int_of_str :: "string \<Rightarrow> int option"
  argsort :: "int list \<Rightarrow> nat list"

definition bnd :: "py_error + 'a \<Rightarrow> ('a \<Rightarrow> py_error + 'b) \<Rightarrow> py_error + 'b" where
  "bnd m f = (case m of Inl e \<Rightarrow> Inl e | Inr x \<Rightarrow> f x)"

text \<open>A \<^verbatim>\<open>for\<close> loop over a list that updates a state and stops at the first exception.\<close>

fun foldM :: "('a \<Rightarrow> 's \<Rightarrow> py_error + 's) \<Rightarrow> 'a list \<Rightarrow> 's \<Rightarrow> py_error + 's" where
  "foldM f [] s = Inr s"
| "foldM f (x # xs) s = bnd (f x s) (foldM f xs)"

text \<open>A list comprehension whose element expression can raise.\<close>

fun mapM :: "('a \<Rightarrow> py_error + 'b) \<Rightarrow> 'a list \<Rightarrow> py_error + 'b list" where
  "mapM f [] = Inr []"
| "mapM f (x # xs) = bnd (f x) (\<lambda>y. bnd (mapM f xs) (\<lambda>ys. Inr (y # ys)))"

text \<open>\<^verbatim>\<open>x.get(k, d)\<close>: only a dict has the method; a key stored with \<^verbatim>\<open>null\<close> returns \<^verbatim>\<open>None\<close>.\<close>

fun py_get :: "json \<Rightarrow> string \<Rightarrow> json \<Rightarrow> py_error + json" where
  "py_get (JObj kvs) k d = Inr (case map_of kvs k of None \<Rightarrow> d | Some v \<Rightarrow> v)"
| "py_get _ k d = Inl AttributeError"

text \<open>\<^verbatim>\<open>x.items()\<close>.\<close>

fun py_items :: "json \<Rightarrow> py_error + (string \<times> json) list" where
  "py_items (JObj kvs) = Inr kvs"
| "py_items _ = Inl AttributeError"

text \<open>\<^verbatim>\<open>for e in x\<close>: a list gives its elements, a dict its keys, a string its characters.\<close>

fun py_iter :: "json \<Rightarrow> py_error + json list" where
  "py_iter (JArr xs) = Inr xs"
| "py_iter (JObj kvs) = Inr (map (\<lambda>kv. JStr (fst kv)) kvs)"
| "py_iter (JStr s) = Inr (map (\<lambda>c. JStr [c]) s)"
| "py_iter _ = Inl TypeError"

text \<open>\<^verbatim>\<open>k in x\<close> for a string \<open>k\<close>: key of a dict, element of a list, substring of a string.\<close>

fun py_contains :: "string \<Rightarrow> json \<Rightarrow> py_error + bool" where
  "py_contains k (JObj kvs) = Inr (k \<in> set (map fst kvs))"
| "py_contains k (JArr xs) = Inr (JStr k \<in> set xs)"
| "py_contains k (JStr s) = Inr (sublist k s)"
| "py_contains k _ = Inl TypeError"

text \<open>\<^verbatim>\<open>x[k]\<close> for a string \<open>k\<close>.\<close>

fun py_subscript :: "json \<Rightarrow> string \<Rightarrow> py_error + json" where
  "py_subscript (JObj kvs) k = (case map_of kvs k of None \<Rightarrow> Inl KeyError | Some v \<Rightarrow> Inr v)"
| "py_subscript _ k = Inl TypeError"

text \<open>Truth value of an object, as \<^verbatim>\<open>not x\<close>, \<^verbatim>\<open>x or y\<close> and \<^verbatim>\<open>if x\<close> test it.\<close>

fun truthy :: "json \<Rightarrow> bool" where
  "truthy JNull = False"
| "truthy (JBool b) = b"
| "truthy (JInt i) = (i \<noteq> 0)"
| "truthy (JFloat r) = (r \<noteq> 0)"
| "truthy (JStr s) = (s \<noteq> [])"
| "truthy (JArr xs) = (xs \<noteq> [])"
| "truthy (JObj kvs) = (kvs \<noteq> [])"

fun is_list :: "json \<Rightarrow> bool" where
  "is_list (JArr xs) = True"
| "is_list _ = False"

text \<open>\<^verbatim>\<open>float(x)\<close> and \<^verbatim>\<open>int(x)\<close>; \<^verbatim>\<open>int\<close> of a float truncates towards zero.\<close>

fun py_float :: "py_env \<Rightarrow> json \<Rightarrow> py_error + real" where
  "py_float E JNull = Inl TypeError"
| "py_float E (JBool b) = Inr (if b then 1 else 0)"
| "py_float E (JInt i) = Inr (of_int i)"
| "py_float E (JFloat r) = Inr r"
| "py_float E (JStr s) = (case float_of_str E s of None \<Rightarrow> Inl ValueError | Some r \<Rightarrow> Inr r)"
| "py_float E (JArr xs) = Inl TypeError"
| "py_float E (JObj kvs) = Inl TypeError"

fun py_int :: "py_env \<Rightarrow> json \<Rightarrow> py_error + int" where
  "py_int E JNull = Inl TypeError"
| "py_int E (JBool b) = Inr (if b then 1 else 0)"
| "py_int E (JInt i) = Inr i"
| "py_int E (JFloat r) = Inr (if 0 \<le> r then \<lfloor>r\<rfloor> else \<lceil>r\<rceil>)"
| "py_int E (JStr s) = (case int_of_str E s of None \<Rightarrow> Inl ValueError | Some i \<Rightarrow> Inr i)"
| "py_int E (JArr xs) = Inl TypeError"
| "py_int E (JObj kvs) = Inl TypeError"

text \<open>
  \<^verbatim>\<open>d[name].append(x)\<close> on a \<^verbatim>\<open>defaultdict(list)\<close>, and
  \<^verbatim>\<open>d.setdefault(name, []).append(x)\<close> on a dict: a new key goes to the end.
\<close>

definition append_default :: "string \<Rightarrow> 'a \<Rightarrow> (string \<times> 'a list) list \<Rightarrow> (string \<times> 'a list) list" where
  "append_default name x d = AList.map_default name [x] (\<lambda>xs. xs @ [x]) d"

section \<open>Hide-the-Label: steps to target\<close>

text \<open>
  The loop that every branch of \<^verbatim>\<open>collect_hide_label_stats\<close> and
  \<^verbatim>\<open>collect_hide_label_steps\<close> repeats, innermost first: over the items of one
  \<^verbatim>\<open>optimizer_results\<close> mapping (the field read is \<^verbatim>\<open>steps_to_target\<close>, or
  \<^verbatim>\<open>mean_steps\<close> in the analysis branch), over the competitions of a tournament, over
  the tournaments.
\<close>

definition collect_results ::
  "py_env \<Rightarrow> string \<Rightarrow> json \<Rightarrow> (string \<times> real list) list \<Rightarrow> py_error + (string \<times> real list) list" where
  "collect_results E field opt_res steps_by_opt =
     bnd (py_items opt_res) (\<lambda>items.
       foldM (\<lambda>(name, res) acc.
           bnd (py_get res field JNull) (\<lambda>steps.
             if steps \<noteq> JNull
             then bnd (py_float E steps) (\<lambda>x. Inr (append_default name x acc))
             else Inr acc))
         items steps_by_opt)"

definition collect_competitions ::
  "py_env \<Rightarrow> json \<Rightarrow> (string \<times> real list) list \<Rightarrow> py_error + (string \<times> real list) list" where
  "collect_competitions E competitions steps_by_opt =
     bnd (py_iter competitions) (\<lambda>comps.
       foldM (\<lambda>comp acc.
           bnd (py_get comp ''optimizer_results'' (JObj [])) (\<lambda>opt_res.
             collect_results E ''steps_to_target'' opt_res acc))
         comps steps_by_opt)"

definition collect_tournaments ::
  "py_env \<Rightarrow> json \<Rightarrow> (string \<times> real list) list \<Rightarrow> py_error + (string \<times> real list) list" where
  "collect_tournaments E tournaments steps_by_opt =
     bnd (py_iter tournaments) (\<lambda>ts.
       foldM (\<lambda>tournament acc.
           bnd (py_get tournament ''competitions'' (JArr [])) (\<lambda>competitions.
             collect_competitions E competitions acc))
         ts steps_by_opt)"

text \<open>\<^verbatim>\<open>process_results.collect_hide_label_steps\<close>.\<close>

definition collect_hide_label_steps :: "py_env \<Rightarrow> json \<Rightarrow> py_error + (string \<times> real list) list" where
  "collect_hide_label_steps E data =
     bnd (py_get data ''all_tournament_results'' (JArr [])) (\<lambda>tournaments.
       collect_tournaments E (if \<not> truthy tournaments then JArr [data] else tournaments) [])"

text \<open>The loop of the analysis branch over \<^verbatim>\<open>items\<close>.\<close>

definition collect_analysis_items ::
  "py_env \<Rightarrow> json \<Rightarrow> (string \<times> real list) list \<Rightarrow> py_error + (string \<times> real list) list" where
  "collect_analysis_items E items steps_by_opt =
     bnd (py_iter items) (\<lambda>its.
       foldM (\<lambda>item acc.
           bnd (py_get item ''data'' (JObj [])) (\<lambda>item_data.
             bnd (py_get item_data ''optimizer_stats'' (JObj [])) (\<lambda>optimizer_stats.
               collect_results E ''mean_steps'' optimizer_stats acc)))
         its steps_by_opt)"

text \<open>
  \<^verbatim>\<open>numpy.mean\<close>, \<^verbatim>\<open>numpy.median\<close>, \<^verbatim>\<open>numpy.min\<close> and \<^verbatim>\<open>numpy.max\<close> of a non-empty
  list, by their documented meaning: the median is the middle element of the sorted
  list, or the mean of the two middle elements.
\<close>

definition np_mean :: "real list \<Rightarrow> real" where
  "np_mean xs = sum_list xs / real (length xs)"

definition np_median :: "real list \<Rightarrow> real" where
  "np_median xs =
     (let ys = sort xs; n = length ys
      in if n mod 2 = 1 then ys ! (n div 2)
         else np_mean [ys ! (n div 2 - 1), ys ! (n div 2)])"

definition np_min :: "real list \<Rightarrow> real" where
  "np_min xs = fold min (tl xs) (hd xs)"

definition np_max :: "real list \<Rightarrow> real" where
  "np_max xs = fold max (tl xs) (hd xs)"

record optimizer_summary =
  mean_steps :: real
  median_steps :: real
  min_steps :: real
  max_steps :: real
  count :: nat

definition summary_of :: "real list \<Rightarrow> optimizer_summary" where
  "summary_of steps =
     \<lparr>mean_steps = np_mean steps, median_steps = np_median steps,
      min_steps = np_min steps, max_steps = np_max steps, count = length steps\<rparr>"

text \<open>The loop under ``Calculate summary statistics''.\<close>

definition summarize :: "(string \<times> real list) list \<Rightarrow> (string \<times> optimizer_summary) list" where
  "summarize steps_by_opt =
     fold (\<lambda>(opt, steps) summary.
         if steps \<noteq> [] then AList.update opt (summary_of steps) summary else summary)
       steps_by_opt []"

text \<open>
  \<^verbatim>\<open>process_official_results.collect_hide_label_stats\<close>: the five shapes, tried in the
  order of the \<^verbatim>\<open>if\<close>/\<^verbatim>\<open>elif\<close> chain, then the summary.
\<close>

definition hide_label_branches :: "py_env \<Rightarrow> json \<Rightarrow> py_error + (string \<times> real list) list" where
  "hide_label_branches E data =
     bnd (py_get data ''type'' JNull) (\<lambda>ty.
     bnd (if ty = JStr ''analysis'' then py_contains ''items'' data else Inr False) (\<lambda>is_analysis.
       if is_analysis then
         bnd (py_get data ''items'' (JArr [])) (\<lambda>items. collect_analysis_items E items [])
       else
         bnd (py_contains ''all_tournament_results'' data) (\<lambda>flat.
           if flat then
             bnd (py_subscript data ''all_tournament_results'') (\<lambda>tournaments.
               collect_tournaments E tournaments [])
           else
             bnd (py_contains ''results'' data) (\<lambda>has_results.
             bnd (if has_results
                  then bnd (py_subscript data ''results'') (py_contains ''all_tournament_results'')
                  else Inr False) (\<lambda>wrapped_all.
               if wrapped_all then
                 bnd (py_subscript data ''results'') (\<lambda>results.
                 bnd (py_subscript results ''all_tournament_results'') (\<lambda>tournaments.
                   collect_tournaments E tournaments []))
               else
                 bnd (if has_results
                      then bnd (py_subscript data ''results'') (py_contains ''tournament_results'')
                      else Inr False) (\<lambda>wrapped.
                   if wrapped then
                     bnd (py_subscript data ''results'') (\<lambda>results.
                     bnd (py_subscript results ''tournament_results'') (\<lambda>tournaments.
                       if is_list tournaments then collect_tournaments E tournaments []
                       else Inr []))
                   else
                     bnd (py_get data ''tournament_results'' (JArr [])) (\<lambda>tournaments.
                       let tournaments1 = (if \<not> truthy tournaments then JArr [data] else tournaments);
                           tournaments2 = (if \<not> is_list tournaments1 then JArr [tournaments1]
                                           else tournaments1)
                       in collect_tournaments E tournaments2 [])))))))"

definition collect_hide_label_stats ::
  "py_env \<Rightarrow> json \<Rightarrow> py_error + (string \<times> optimizer_summary) list" where
  "collect_hide_label_stats E data =
     bnd (hide_label_branches E data) (\<lambda>steps_by_opt. Inr (summarize steps_by_opt))"

section \<open>Open Race: best-so-far histories\<close>

text \<open>
  One record of an \<^verbatim>\<open>optimization_history\<close>: the body of the loop
  \<^verbatim>\<open>for record in history\<close>, with the two lists it appends to as the state. The value is
  \<^verbatim>\<open>record.get('best_value_so_far') or record.get('current_best')\<close>.
\<close>

type_synonym run = "int list \<times> real list"

definition read_record :: "py_env \<Rightarrow> json \<Rightarrow> run \<Rightarrow> py_error + run" where
  "read_record E record hist =
     (case hist of (step_indices, best_values) \<Rightarrow>
        bnd (py_get record ''step'' JNull) (\<lambda>step.
        bnd (py_get record ''best_value_so_far'' JNull) (\<lambda>so_far.
        bnd (if truthy so_far then Inr so_far else py_get record ''current_best'' JNull)
          (\<lambda>best_value.
            if step \<noteq> JNull \<and> best_value \<noteq> JNull
            then bnd (py_int E step) (\<lambda>i.
                 bnd (py_float E best_value) (\<lambda>x.
                   Inr (step_indices @ [i], best_values @ [x])))
            else Inr (step_indices, best_values)))))"

text \<open>``Sort by step'': both lists are read through the indices \<^verbatim>\<open>np.argsort\<close> returns.\<close>

definition sort_by_step :: "py_env \<Rightarrow> run \<Rightarrow> run" where
  "sort_by_step E hist =
     (case hist of (step_indices, best_values) \<Rightarrow>
        let order = argsort E step_indices
        in (map (\<lambda>i. step_indices ! i) order, map (\<lambda>i. best_values ! i) order))"

text \<open>
  ``Ensure monotonic'': \<^verbatim>\<open>for i in range(1, len(best_values))\<close>, updating the list in
  place, so that the comparison at \<open>i\<close> reads the repaired value at \<open>i - 1\<close>.
\<close>

definition ensure_monotonic :: "real list \<Rightarrow> real list" where
  "ensure_monotonic best_values =
     fold (\<lambda>i vs. if vs ! i < vs ! (i - 1) then vs[i := vs ! (i - 1)] else vs)
       [1..<length best_values] best_values"

definition normalize_run :: "py_env \<Rightarrow> run \<Rightarrow> run" where
  "normalize_run E hist =
     (case sort_by_step E hist of (step_indices, best_values) \<Rightarrow>
        (step_indices, ensure_monotonic best_values))"

text \<open>The body of \<^verbatim>\<open>for name, result in optimizer_results.items()\<close>.\<close>

definition collect_history ::
  "py_env \<Rightarrow> string \<Rightarrow> json \<Rightarrow> (string \<times> run list) list \<Rightarrow> py_error + (string \<times> run list) list" where
  "collect_history E name result per_optimizer_histories =
     bnd (py_get result ''optimization_history'' (JArr [])) (\<lambda>history.
     bnd (py_iter history) (\<lambda>records.
     bnd (foldM (read_record E) records ([], [])) (\<lambda>hist.
       if fst hist \<noteq> []
       then Inr (append_default name (normalize_run E hist) per_optimizer_histories)
       else Inr per_optimizer_histories)))"

text \<open>The loop \<^verbatim>\<open>for competition in competitions\<close>.\<close>

definition extract_histories ::
  "py_env \<Rightarrow> json \<Rightarrow> (string \<times> run list) list \<Rightarrow> py_error + (string \<times> run list) list" where
  "extract_histories E competitions per_optimizer_histories =
     bnd (py_iter competitions) (\<lambda>comps.
       foldM (\<lambda>competition acc.
           bnd (py_get competition ''optimizer_results'' (JObj [])) (\<lambda>optimizer_results.
           bnd (py_items optimizer_results) (\<lambda>items.
             foldM (\<lambda>(name, result). collect_history E name result) items acc)))
         comps per_optimizer_histories)"

text \<open>\<^verbatim>\<open>process_results.collect_open_race_histories\<close>.\<close>

definition collect_open_race_histories :: "py_env \<Rightarrow> json \<Rightarrow> py_error + (string \<times> run list) list" where
  "collect_open_race_histories E data =
     bnd (py_get data ''competitions'' JNull) (\<lambda>direct.
     bnd (if is_list direct then Inr data else py_get data ''tournament_results'' (JObj []))
       (\<lambda>tournament_results.
     bnd (py_get tournament_results ''competitions'' (JArr [])) (\<lambda>competitions.
       if \<not> truthy competitions then Inr [] else extract_histories E competitions [])))"

section \<open>Open Race: the mean trajectory\<close>

record optimizer_trajectory =
  agg_steps :: "int list"
  agg_values :: "real list"

text \<open>
  \<^verbatim>\<open>step_to_values\<close> is a dict from step to the list of samples at that step, created
  with the keys \<^verbatim>\<open>range(max_step + 1)\<close>. \<^verbatim>\<open>step_to_values[step].append(value)\<close> raises
  \<^verbatim>\<open>KeyError\<close> at any other key.
\<close>

definition init_step_to_values :: "int \<Rightarrow> (int \<times> real list) list" where
  "init_step_to_values max_step = map (\<lambda>s. (s, [])) [0..max_step]"

definition append_at :: "int \<Rightarrow> real \<Rightarrow> (int \<times> real list) list \<Rightarrow> py_error + (int \<times> real list) list" where
  "append_at step v step_to_values =
     (case map_of step_to_values step of
        None \<Rightarrow> Inl KeyError
      | Some vs \<Rightarrow> Inr (AList.update step (vs @ [v]) step_to_values))"

text \<open>The body of \<^verbatim>\<open>for run_steps, run_values in runs\<close>: the observations, then the forward fill.\<close>

definition add_run :: "int \<Rightarrow> run \<Rightarrow> (int \<times> real list) list \<Rightarrow> py_error + (int \<times> real list) list" where
  "add_run max_step r step_to_values =
     (case r of (run_steps, run_values) \<Rightarrow>
        bnd (foldM (\<lambda>(step, v). append_at step v) (zip run_steps run_values) step_to_values)
          (\<lambda>filled.
            if run_steps \<noteq> [] then
              (if run_values = [] then Inl IndexError
               else foldM (\<lambda>s. append_at s (last run_values))
                      [last run_steps + 1..max_step] filled)
            else Inr filled))"

text \<open>\<^verbatim>\<open>max(run_steps[-1] if run_steps else 0 for run_steps, _ in runs)\<close>.\<close>

fun py_max :: "int list \<Rightarrow> py_error + int" where
  "py_max [] = Inl ValueError"
| "py_max (x # xs) = Inr (fold max xs x)"

definition terminal_step :: "run \<Rightarrow> int" where
  "terminal_step r = (if fst r \<noteq> [] then last (fst r) else 0)"

definition build_step_to_values :: "run list \<Rightarrow> py_error + (int \<times> real list) list" where
  "build_step_to_values runs =
     bnd (py_max (map terminal_step runs)) (\<lambda>max_step.
       foldM (add_run max_step) runs (init_step_to_values max_step))"

text \<open>The body of the loop over optimizers, for a non-empty list of runs.\<close>

definition aggregate_runs :: "run list \<Rightarrow> py_error + optimizer_trajectory" where
  "aggregate_runs runs =
     bnd (build_step_to_values runs) (\<lambda>step_to_values.
       let keys = sort (map fst step_to_values)
       in bnd (mapM (\<lambda>s. case map_of step_to_values s of
                            None \<Rightarrow> Inl KeyError
                          | Some vs \<Rightarrow> Inr (if vs \<noteq> [] then np_mean vs else 0)) keys)
            (\<lambda>vals. Inr \<lparr>agg_steps = keys, agg_values = vals\<rparr>))"

text \<open>\<^verbatim>\<open>process_results.aggregate_open_race_histories\<close>.\<close>

definition aggregate_open_race_histories ::
  "(string \<times> run list) list \<Rightarrow> py_error + (string \<times> optimizer_trajectory) list" where
  "aggregate_open_race_histories per_optimizer_histories =
     foldM (\<lambda>(optimizer_name, runs) aggregated.
         if runs = [] then Inr aggregated
         else bnd (aggregate_runs runs) (\<lambda>t. Inr (AList.update optimizer_name t aggregated)))
       per_optimizer_histories []"

text \<open>
  \<^verbatim>\<open>process_official_results.collect_open_race_histories\<close>: one more wrapper shape, the
  same extraction, and the aggregation in the same function.
\<close>

definition official_collect_open_race_histories ::
  "py_env \<Rightarrow> json \<Rightarrow> py_error + (string \<times> optimizer_trajectory) list" where
  "official_collect_open_race_histories E data =
     bnd (py_contains ''results'' data) (\<lambda>has_results.
     bnd (if has_results
          then bnd (py_subscript data ''results'') (py_contains ''competitions'')
          else Inr False) (\<lambda>wrapped.
     bnd (if wrapped then py_subscript data ''results''
          else bnd (py_get data ''competitions'' JNull) (\<lambda>direct.
                 if is_list direct then Inr data
                 else py_get data ''tournament_results'' (JObj [])))
       (\<lambda>tournament_results.
     bnd (py_get tournament_results ''competitions'' (JArr [])) (\<lambda>competitions.
       if \<not> truthy competitions then Inr []
       else bnd (extract_histories E competitions []) aggregate_open_race_histories))))"

section \<open>Concrete inputs\<close>

text \<open>
  An environment for evaluating the functions on concrete documents: no string parses as
  a number, and \<open>argsort\<close> is the stable sort of the indices by their key.
\<close>

definition stable_argsort :: "int list \<Rightarrow> nat list" where
  "stable_argsort xs = sort_key (\<lambda>i. xs ! i) [0..<length xs]"

definition default_env :: py_env where
  "default_env =
     \<lparr>float_of_str = (\<lambda>s. None), int_of_str = (\<lambda>s. None), argsort = stable_argsort\<rparr>"


text \<open>
  A bare tournament of two competitions; optimizer \<open>B\<close> never has a
  \<^verbatim>\<open>steps_to_target\<close>.
\<close>

definition hide_label_example :: json where
  "hide_label_example =
     JObj [(''competitions'', JArr [
        JObj [(''optimizer_results'', JObj [
           (''A'', JObj [(''steps_to_target'', JInt 3)]),
           (''B'', JObj [(''steps_to_target'', JNull)])])],
        JObj [(''optimizer_results'', JObj [
           (''A'', JObj [(''steps_to_target'', JInt 6)]),
           (''B'', JObj [])])]])]"

section \<open>What the aggregation computes\<close>

text \<open>
  The samples that one run adds to \<^verbatim>\<open>step_to_values[s]\<close>, in the words of the
  specification: the value of every observation at exactly step \<open>s\<close>, then the last value
  if \<open>s\<close> is beyond the last observed step.
\<close>

definition contribution :: "run \<Rightarrow> int \<Rightarrow> real list" where
  "contribution r s =
     (case r of (run_steps, run_values) \<Rightarrow>
        map snd (filter (\<lambda>p. fst p = s) (zip run_steps run_values)) @
        (if run_steps \<noteq> [] \<and> last run_steps < s then [last run_values] else []))"

text \<open>
  A run as \<open>collect_history\<close> stores it: as many values as steps, the steps ascending;
  and no negative step, for which \<^verbatim>\<open>step_to_values\<close> has no key.
\<close>

definition run_ok :: "run \<Rightarrow> bool" where
  "run_ok r =
     (case r of (run_steps, run_values) \<Rightarrow>
        length run_steps = length run_values \<and> sorted run_steps \<and> (\<forall>s\<in>set run_steps. 0 \<le> s))"

text \<open>The largest terminal step of a non-empty list of runs.\<close>

definition max_step_of :: "run list \<Rightarrow> int" where
  "max_step_of runs = Max (set (map terminal_step runs))"

text \<open>The dict with the keys \<open>0, \<dots>, max_step\<close> that holds \<open>g s\<close> at \<open>s\<close>.\<close>

definition dict_of :: "int \<Rightarrow> (int \<Rightarrow> real list) \<Rightarrow> (int \<times> real list) list" where
  "dict_of max_step g = map (\<lambda>s. (s, g s)) [0..max_step]"

definition mean_or_zero :: "real list \<Rightarrow> real" where
  "mean_or_zero vs = (if vs \<noteq> [] then np_mean vs else 0)"

text \<open>The trajectory of a list of runs: at every step the mean of all contributions.\<close>

definition trajectory_of :: "run list \<Rightarrow> optimizer_trajectory" where
  "trajectory_of runs =
     \<lparr>agg_steps = [0..max_step_of runs],
      agg_values = map (\<lambda>s. mean_or_zero (concat (map (\<lambda>r. contribution r s) runs)))
                     [0..max_step_of runs]\<rparr>"

text \<open>
  A run with exactly one observation at each of the steps \<open>0, \<dots>, n - 1\<close> and values
  that never decrease.
\<close>

definition dense_run :: "run \<Rightarrow> bool" where
  "dense_run r =
     (case r of (run_steps, run_values) \<Rightarrow>
        run_values \<noteq> [] \<and> run_steps = [0..int (length run_values) - 1] \<and> sorted run_values)"

section \<open>What the repair of one history computes\<close>

text \<open>
  What is assumed of \<^verbatim>\<open>numpy.argsort\<close>: the result is a permutation of the indices that
  puts the keys in ascending order. The order among equal keys is left open.
\<close>

definition argsort_ok :: "(int list \<Rightarrow> nat list) \<Rightarrow> bool" where
  "argsort_ok f =
     (\<forall>xs. mset (f xs) = mset [0..<length xs] \<and> sorted (map (\<lambda>i. xs ! i) (f xs)))"

text \<open>
  The running maximum, in the words of the specification: every value is replaced by
  the largest value up to and including its position.
\<close>

definition running_maximum :: "real list \<Rightarrow> real list" where
  "running_maximum xs = map (\<lambda>i. Max (set (take (Suc i) xs))) [0..<length xs]"

section \<open>Which optimizers a document reports\<close>

text \<open>
  \<open>field_set field res\<close>: the record \<open>res\<close> is a dict that has \<open>field\<close> with a value
  other than \<^verbatim>\<open>null\<close>. \<open>reports field opt data\<close>: somewhere in the document a dict maps
  the optimizer \<open>opt\<close> to such a record. \<open>part_of x data\<close>: whatever \<open>x\<close> reports, the
  document reports.
\<close>

fun field_set :: "string \<Rightarrow> json \<Rightarrow> bool" where
  "field_set field (JObj kvs) = (case map_of kvs field of None \<Rightarrow> False | Some v \<Rightarrow> v \<noteq> JNull)"
| "field_set field _ = False"

fun reports :: "string \<Rightarrow> string \<Rightarrow> json \<Rightarrow> bool" where
  "reports field opt (JArr xs) = (\<exists>x\<in>set xs. reports field opt x)"
| "reports field opt (JObj kvs) =
     (\<exists>kv\<in>set kvs. (fst kv = opt \<and> field_set field (snd kv)) \<or> reports field opt (snd kv))"
| "reports field opt _ = False"

definition part_of :: "json \<Rightarrow> json \<Rightarrow> bool" where
  "part_of x data = (\<forall>field opt. reports field opt x \<longrightarrow> reports field opt data)"

text \<open>An Open Race document whose only record has the best value 0.0.\<close>

definition zero_value_example :: json where
  "zero_value_example =
     JObj [(''competitions'', JArr [JObj [(''optimizer_results'', JObj [(''A'',
        JObj [(''optimization_history'', JArr [
           JObj [(''step'', JInt 0), (''best_value_so_far'', JFloat 0)]])])])]])]"

section \<open>What the extraction stores\<close>

text \<open>
  A run as \<open>collect_history\<close> stores it, and a mapping of optimizers to such runs in
  which every optimizer has at least one.
\<close>

definition stored_run :: "run \<Rightarrow> bool" where
  "stored_run r =
     (fst r \<noteq> [] \<and> length (fst r) = length (snd r) \<and> sorted (fst r) \<and> sorted (snd r))"


section \<open>Hide-the-Label in \<^verbatim>\<open>generate_data.py\<close>\<close>

text \<open>
  \<^verbatim>\<open>generate_data.process_hide_label_file\<close>, from the parsed document on. It keeps the
  values as they are read and hands them to \<^verbatim>\<open>statistics.mean\<close>, \<^verbatim>\<open>statistics.median\<close>,
  \<^verbatim>\<open>min\<close> and \<^verbatim>\<open>max\<close>, which have the meaning of the numpy functions above;
  \<^verbatim>\<open>statistics.mean\<close>, called first, raises \<^verbatim>\<open>TypeError\<close> on a value that is not a
  number. The summaries of a later tournament replace those of an earlier one.
\<close>

fun py_number :: "json \<Rightarrow> py_error + real" where
  "py_number (JBool b) = Inr (if b then 1 else 0)"
| "py_number (JInt i) = Inr (of_int i)"
| "py_number (JFloat r) = Inr r"
| "py_number _ = Inl TypeError"

definition collect_raw_steps ::
  "json \<Rightarrow> (string \<times> json list) list \<Rightarrow> py_error + (string \<times> json list) list" where
  "collect_raw_steps competition optimizer_steps =
     bnd (py_get competition ''optimizer_results'' (JObj [])) (\<lambda>opt_results.
     bnd (py_items opt_results) (\<lambda>items.
       foldM (\<lambda>(opt_name, opt_data) acc.
           bnd (py_get opt_data ''steps_to_target'' JNull) (\<lambda>steps.
             if steps \<noteq> JNull then Inr (append_default opt_name steps acc) else Inr acc))
         items optimizer_steps))"

definition tournament_summaries ::
  "json \<Rightarrow> (string \<times> optimizer_summary) list \<Rightarrow> py_error + (string \<times> optimizer_summary) list" where
  "tournament_summaries tournament results =
     bnd (py_get tournament ''optimizer_names'' (JArr [])) (\<lambda>optimizer_names.
     bnd (py_get tournament ''competitions'' (JArr [])) (\<lambda>competitions.
     bnd (py_iter competitions) (\<lambda>comps.
     bnd (foldM collect_raw_steps comps []) (\<lambda>optimizer_steps.
       foldM (\<lambda>(opt_name, steps_list) acc.
           if steps_list \<noteq> []
           then bnd (mapM py_number steps_list) (\<lambda>nums.
                  Inr (AList.update opt_name (summary_of nums) acc))
           else Inr acc)
         optimizer_steps results))))"

definition process_hide_label_file :: "json \<Rightarrow> py_error + (string \<times> optimizer_summary) list" where
  "process_hide_label_file data =
     bnd (py_contains ''tournament_results'' data) (\<lambda>present.
       if present then
         bnd (py_subscript data ''tournament_results'') (\<lambda>tournament_results.
         bnd (py_iter tournament_results) (\<lambda>tournaments.
           foldM tournament_summaries tournaments []))
       else Inr [])"

text \<open>A summary computed from a non-empty list of numbers.\<close>

definition pooled_summary :: "optimizer_summary \<Rightarrow> bool" where
  "pooled_summary s =
     (\<exists>nums. nums \<noteq> [] \<and> s = summary_of nums)"

section \<open>Documents the extractors read without an exception\<close>

text \<open>
  \<open>returns m\<close>: the call returned a value, it did not raise.
\<close>

fun returns :: "py_error + 'a \<Rightarrow> bool" where
  "returns (Inr x) = True"
| "returns (Inl e) = False"

text \<open>
  The types that the extraction functions rely on without testing them. A field that is
  read with \<^verbatim>\<open>.get\<close> may be missing (\<open>optional\<close>). A value passed to \<^verbatim>\<open>float\<close> is
  \<^verbatim>\<open>null\<close> (then it is skipped) or one that \<^verbatim>\<open>float\<close> accepts; a \<^verbatim>\<open>step\<close> is
  \<^verbatim>\<open>null\<close> or one that \<^verbatim>\<open>int\<close> turns into a number that is not negative, since
  \<^verbatim>\<open>step_to_values\<close> has the keys \<open>0, \<dots>, max_step\<close> only. Whatever is iterated is an
  array, and whatever \<^verbatim>\<open>.get\<close> or \<^verbatim>\<open>.items\<close> is called on is a dict.
\<close>

definition number_or_null :: "py_env \<Rightarrow> json \<Rightarrow> bool" where
  "number_or_null E v = (v = JNull \<or> returns (py_float E v))"

definition step_or_null :: "py_env \<Rightarrow> json \<Rightarrow> bool" where
  "step_or_null E v = (v = JNull \<or> (case py_int E v of Inr i \<Rightarrow> 0 \<le> i | Inl e \<Rightarrow> False))"

definition optional :: "(json \<Rightarrow> bool) \<Rightarrow> json option \<Rightarrow> bool" where
  "optional P v = (case v of None \<Rightarrow> True | Some x \<Rightarrow> P x)"

text \<open>
  One entry of \<^verbatim>\<open>optimizer_results\<close> as the Hide-the-Label functions read it (\<open>field\<close> is
  \<^verbatim>\<open>steps_to_target\<close>, or \<^verbatim>\<open>mean_steps\<close> in the analysis shape), one record of an
  \<^verbatim>\<open>optimization_history\<close>, and one entry of \<^verbatim>\<open>optimizer_results\<close> as the Open Race
  functions read it.
\<close>

fun steps_record :: "py_env \<Rightarrow> string \<Rightarrow> json \<Rightarrow> bool" where
  "steps_record E field (JObj kvs) = optional (number_or_null E) (map_of kvs field)"
| "steps_record E field _ = False"

fun history_record :: "py_env \<Rightarrow> json \<Rightarrow> bool" where
  "history_record E (JObj kvs) =
     (optional (step_or_null E) (map_of kvs ''step'') \<and>
      optional (number_or_null E) (map_of kvs ''best_value_so_far'') \<and>
      optional (number_or_null E) (map_of kvs ''current_best''))"
| "history_record E _ = False"

fun array_of :: "(json \<Rightarrow> bool) \<Rightarrow> json \<Rightarrow> bool" where
  "array_of P (JArr xs) = (\<forall>x\<in>set xs. P x)"
| "array_of P _ = False"

fun history_result :: "py_env \<Rightarrow> json \<Rightarrow> bool" where
  "history_result E (JObj kvs) =
     optional (array_of (history_record E)) (map_of kvs ''optimization_history'')"
| "history_result E _ = False"

text \<open>
  The nesting that both race types share: a tournament is a dict whose
  \<^verbatim>\<open>competitions\<close>, if present, is an array of dicts whose \<^verbatim>\<open>optimizer_results\<close>, if
  present, is a dict of entries \<open>P\<close>.
\<close>

fun results_object :: "(json \<Rightarrow> bool) \<Rightarrow> json \<Rightarrow> bool" where
  "results_object P (JObj kvs) = (\<forall>kv\<in>set kvs. P (snd kv))"
| "results_object P _ = False"

fun competition_object :: "(json \<Rightarrow> bool) \<Rightarrow> json \<Rightarrow> bool" where
  "competition_object P (JObj kvs) = optional (results_object P) (map_of kvs ''optimizer_results'')"
| "competition_object P _ = False"

fun tournament_object :: "(json \<Rightarrow> bool) \<Rightarrow> json \<Rightarrow> bool" where
  "tournament_object P (JObj kvs) =
     optional (array_of (competition_object P)) (map_of kvs ''competitions'')"
| "tournament_object P _ = False"

text \<open>The items of the analysis shape, down to \<^verbatim>\<open>optimizer_stats\<close>.\<close>

fun item_data :: "py_env \<Rightarrow> json \<Rightarrow> bool" where
  "item_data E (JObj kvs) =
     optional (results_object (steps_record E ''mean_steps'')) (map_of kvs ''optimizer_stats'')"
| "item_data E _ = False"

fun analysis_item :: "py_env \<Rightarrow> json \<Rightarrow> bool" where
  "analysis_item E (JObj kvs) = optional (item_data E) (map_of kvs ''data'')"
| "analysis_item E _ = False"

text \<open>
  A Hide-the-Label document: a dict in which every key that one of the five shapes reads
  has the type that shape reads it as. \<^verbatim>\<open>results.tournament_results\<close> is tested with
  \<^verbatim>\<open>isinstance(_, list)\<close> and ignored otherwise; the top-level \<^verbatim>\<open>tournament_results\<close> may
  be empty, a list of tournaments, or one tournament.
\<close>

fun hide_label_results :: "py_env \<Rightarrow> json \<Rightarrow> bool" where
  "hide_label_results E (JObj kvs) =
     (optional (array_of (tournament_object (steps_record E ''steps_to_target'')))
        (map_of kvs ''all_tournament_results'') \<and>
      optional (\<lambda>v. is_list v \<longrightarrow> array_of (tournament_object (steps_record E ''steps_to_target'')) v)
        (map_of kvs ''tournament_results''))"
| "hide_label_results E _ = False"

fun hide_label_document :: "py_env \<Rightarrow> json \<Rightarrow> bool" where
  "hide_label_document E (JObj kvs) =
     (tournament_object (steps_record E ''steps_to_target'') (JObj kvs) \<and>
      optional (array_of (analysis_item E)) (map_of kvs ''items'') \<and>
      optional (array_of (tournament_object (steps_record E ''steps_to_target'')))
        (map_of kvs ''all_tournament_results'') \<and>
      optional (hide_label_results E) (map_of kvs ''results'') \<and>
      optional (\<lambda>v. \<not> truthy v \<or> array_of (tournament_object (steps_record E ''steps_to_target'')) v \<or>
                    tournament_object (steps_record E ''steps_to_target'') v)
        (map_of kvs ''tournament_results''))"
| "hide_label_document E _ = False"

text \<open>
  An Open Race document: a tournament, or a dict that wraps one under
  \<^verbatim>\<open>tournament_results\<close> or under \<^verbatim>\<open>results\<close>.
\<close>

fun open_race_document :: "py_env \<Rightarrow> json \<Rightarrow> bool" where
  "open_race_document E (JObj kvs) =
     (tournament_object (history_result E) (JObj kvs) \<and>
      optional (tournament_object (history_result E)) (map_of kvs ''tournament_results'') \<and>
      optional (tournament_object (history_result E)) (map_of kvs ''results''))"
| "open_race_document E _ = False"

text \<open>Every run of every optimizer is one that the aggregation accepts.\<close>

definition runs_ok :: "(string \<times> run list) list \<Rightarrow> bool" where
  "runs_ok hists = (\<forall>p\<in>set hists. \<forall>r\<in>set (snd p). run_ok r)"

section \<open>The trials of an Open Race document\<close>

text \<open>
  The first lines of the two \<^verbatim>\<open>collect_open_race_histories\<close>, up to the assignment of
  \<^verbatim>\<open>competitions\<close>: the list of competitions that the function goes on to read.
\<close>

definition find_competitions :: "json \<Rightarrow> py_error + json" where
  "find_competitions data =
     bnd (py_get data ''competitions'' JNull) (\<lambda>direct.
     bnd (if is_list direct then Inr data else py_get data ''tournament_results'' (JObj []))
       (\<lambda>tournament_results.
     py_get tournament_results ''competitions'' (JArr [])))"

definition official_find_competitions :: "json \<Rightarrow> py_error + json" where
  "official_find_competitions data =
     bnd (py_contains ''results'' data) (\<lambda>has_results.
     bnd (if has_results
          then bnd (py_subscript data ''results'') (py_contains ''competitions'')
          else Inr False) (\<lambda>wrapped.
     bnd (if wrapped then py_subscript data ''results''
          else bnd (py_get data ''competitions'' JNull) (\<lambda>direct.
                 if is_list direct then Inr data
                 else py_get data ''tournament_results'' (JObj [])))
       (\<lambda>tournament_results.
     py_get tournament_results ''competitions'' (JArr []))))"









text \<open>
  An Open Race document of two competitions. The first trial of \<open>A\<close> is out of order and
  has a dip; the second has one record. The trials of \<open>B\<close> have no observation: one
  record without a step, and no history at all.
\<close>

definition open_race_competitions :: json where
  "open_race_competitions =
     JArr [
        JObj [(''optimizer_results'', JObj [
           (''A'', JObj [(''optimization_history'', JArr [
              JObj [(''step'', JInt 0), (''best_value_so_far'', JFloat 5)],
              JObj [(''step'', JInt 2), (''best_value_so_far'', JFloat 7)],
              JObj [(''step'', JInt 1), (''current_best'', JFloat 3)]])]),
           (''B'', JObj [(''optimization_history'', JArr [
              JObj [(''step'', JNull), (''best_value_so_far'', JFloat 1)]])])])],
        JObj [(''optimizer_results'', JObj [
           (''A'', JObj [(''optimization_history'', JArr [
              JObj [(''step'', JInt 0), (''best_value_so_far'', JFloat 1)]])]),
           (''B'', JObj [])])]]"

definition open_race_example :: json where
  "open_race_example = JObj [(''competitions'', open_race_competitions)]"

section \<open>The error monad and loops\<close>

lemma bnd_Inr [simp]: "bnd (Inr x) f = f x"
  by (simp add: bnd_def)

lemma bnd_Inl [simp]: "bnd (Inl e) f = Inl e"
  by (simp add: bnd_def)

lemma bnd_InrE:
  assumes "bnd m f = Inr y"
  obtains x where "m = Inr x" and "f x = Inr y"
  using assms by (cases m) simp_all

lemma bnd_Inr_iff: "bnd m f = Inr y \<longleftrightarrow> (\<exists>x. m = Inr x \<and> f x = Inr y)"
  by (cases m) simp_all

lemma foldM_invariant:
  assumes "foldM f xs s = Inr s'" and "P s"
    and "\<And>x a b. x \<in> set xs \<Longrightarrow> P a \<Longrightarrow> f x a = Inr b \<Longrightarrow> P b"
  shows "P s'"
  using assms
proof (induction xs arbitrary: s)
  case Nil
  then show ?case by simp
next
  case (Cons x xs)
  from Cons.prems(1) obtain a where a: "f x s = Inr a" and rest: "foldM f xs a = Inr s'"
    by (auto simp: bnd_Inr_iff)
  have Pa: "P a" using Cons.prems(3) [of x s a] Cons.prems(2) a by simp
  show ?case
  proof (rule Cons.IH [OF rest Pa])
    fix y c b
    assume "y \<in> set xs" "P c" "f y c = Inr b"
    then show "P b" using Cons.prems(3) [of y c b] by simp
  qed
qed

lemma distinct_append_default:
  "distinct (map fst d) \<Longrightarrow> distinct (map fst (append_default name x d))"
  by (simp add: append_default_def distinct_map_default)

lemma collect_results_distinct:
  assumes "collect_results E field opt_res acc = Inr out" and "distinct (map fst acc)"
  shows "distinct (map fst out)"
proof -
  from assms(1) obtain items where
    loop: "foldM (\<lambda>(name, res) acc.
           bnd (py_get res field JNull) (\<lambda>steps.
             if steps \<noteq> JNull
             then bnd (py_float E steps) (\<lambda>x. Inr (append_default name x acc))
             else Inr acc)) items acc = Inr out"
    by (auto simp: collect_results_def bnd_Inr_iff)
  show ?thesis
    by (rule foldM_invariant [where P = "\<lambda>d. distinct (map fst d)", OF loop assms(2)])
       (auto simp: bnd_Inr_iff distinct_append_default split: if_splits)
qed

lemma collect_competitions_distinct:
  assumes "collect_competitions E competitions acc = Inr out" and "distinct (map fst acc)"
  shows "distinct (map fst out)"
proof -
  from assms(1) obtain comps where
    loop: "foldM (\<lambda>comp acc.
           bnd (py_get comp ''optimizer_results'' (JObj [])) (\<lambda>opt_res.
             collect_results E ''steps_to_target'' opt_res acc)) comps acc = Inr out"
    by (auto simp: collect_competitions_def bnd_Inr_iff)
  show ?thesis
    by (rule foldM_invariant [where P = "\<lambda>d. distinct (map fst d)", OF loop assms(2)])
       (auto simp: bnd_Inr_iff dest: collect_results_distinct)
qed

lemma collect_tournaments_distinct:
  assumes "collect_tournaments E tournaments acc = Inr out" and "distinct (map fst acc)"
  shows "distinct (map fst out)"
proof -
  from assms(1) obtain ts where
    loop: "foldM (\<lambda>tournament acc.
           bnd (py_get tournament ''competitions'' (JArr [])) (\<lambda>competitions.
             collect_competitions E competitions acc)) ts acc = Inr out"
    by (auto simp: collect_tournaments_def bnd_Inr_iff)
  show ?thesis
    by (rule foldM_invariant [where P = "\<lambda>d. distinct (map fst d)", OF loop assms(2)])
       (auto simp: bnd_Inr_iff dest: collect_competitions_distinct)
qed

lemma collect_analysis_items_distinct:
  assumes "collect_analysis_items E items acc = Inr out" and "distinct (map fst acc)"
  shows "distinct (map fst out)"
proof -
  from assms(1) obtain its where
    loop: "foldM (\<lambda>item acc.
           bnd (py_get item ''data'' (JObj [])) (\<lambda>item_data.
             bnd (py_get item_data ''optimizer_stats'' (JObj [])) (\<lambda>optimizer_stats.
               collect_results E ''mean_steps'' optimizer_stats acc))) its acc = Inr out"
    by (auto simp: collect_analysis_items_def bnd_Inr_iff)
  show ?thesis
    by (rule foldM_invariant [where P = "\<lambda>d. distinct (map fst d)", OF loop assms(2)])
       (auto simp: bnd_Inr_iff dest: collect_results_distinct)
qed

lemma hide_label_branches_cases:
  assumes "hide_label_branches E data = Inr out"
  shows "out = [] \<or> (\<exists>x. collect_tournaments E x [] = Inr out) \<or>
         (\<exists>x. collect_analysis_items E x [] = Inr out)"
  using assms unfolding hide_label_branches_def Let_def
  by (auto elim!: bnd_InrE split: if_splits; blast)

lemma hide_label_branches_distinct:
  assumes "hide_label_branches E data = Inr out"
  shows "distinct (map fst out)"
  using hide_label_branches_cases [OF assms]
    collect_tournaments_distinct [of E _ "[]" out]
    collect_analysis_items_distinct [of E _ "[]" out]
  by auto

lemma map_of_summarize_aux:
  "distinct (map fst sbo) \<Longrightarrow>
   map_of (fold (\<lambda>(opt, steps) summary.
         if steps \<noteq> [] then AList.update opt (summary_of steps) summary else summary) sbo acc) opt =
   (case map_of sbo opt of
      None \<Rightarrow> map_of acc opt
    | Some steps \<Rightarrow> if steps \<noteq> [] then Some (summary_of steps) else map_of acc opt)"
proof (induction sbo arbitrary: acc)
  case Nil
  then show ?case by simp
next
  case (Cons p sbo)
  obtain k v where p: "p = (k, v)" by (cases p)
  from Cons.prems have d: "distinct (map fst sbo)" and k: "k \<notin> fst ` set sbo"
    by (auto simp: p)
  from k have none: "map_of sbo k = None"
    by (simp add: map_of_eq_None_iff)
  show ?case
    using none by (auto simp: p Cons.IH [OF d] update_conv' split: option.splits)
qed

lemma map_of_summarize:
  "distinct (map fst sbo) \<Longrightarrow>
   map_of (summarize sbo) opt =
   (case map_of sbo opt of
      None \<Rightarrow> None
    | Some steps \<Rightarrow> if steps \<noteq> [] then Some (summary_of steps) else None)"
  by (simp add: summarize_def map_of_summarize_aux split: option.splits)

lemma np_min_eq: "xs \<noteq> [] \<Longrightarrow> np_min xs = Min (set xs)"
proof (cases xs)
  case (Cons a list)
  then show ?thesis using Min.set_eq_fold [of a list] by (simp add: np_min_def)
qed simp

lemma np_max_eq: "xs \<noteq> [] \<Longrightarrow> np_max xs = Max (set xs)"
proof (cases xs)
  case (Cons a list)
  then show ?thesis using Max.set_eq_fold [of a list] by (simp add: np_max_def)
qed simp

lemma sort_nth_bounds:
  fixes xs :: "real list"
  assumes "i < length xs"
  shows "Min (set xs) \<le> sort xs ! i" and "sort xs ! i \<le> Max (set xs)"
proof -
  have "sort xs ! i \<in> set (sort xs)"
    using assms by (intro nth_mem) simp
  then have "sort xs ! i \<in> set xs" by simp
  then show "Min (set xs) \<le> sort xs ! i" and "sort xs ! i \<le> Max (set xs)"
    by simp_all
qed

lemma np_median_bounds:
  assumes "xs \<noteq> []"
  shows "np_min xs \<le> np_median xs" and "np_median xs \<le> np_max xs"
proof -
  let ?n = "length xs"
  have n: "0 < ?n" using assms by simp
  have mid: "?n div 2 < ?n" using n by simp
  have lo: "?n div 2 - 1 < ?n" using n by arith
  note b1 = sort_nth_bounds [OF mid] and b2 = sort_nth_bounds [OF lo]
  show "np_min xs \<le> np_median xs"
    using b1(1) b2(1) by (simp add: np_median_def np_mean_def Let_def np_min_eq [OF assms])
  show "np_median xs \<le> np_max xs"
    using b1(2) b2(2) by (simp add: np_median_def np_mean_def Let_def np_max_eq [OF assms])
qed

lemmas hide_label_defs =
  collect_hide_label_stats_def hide_label_branches_def collect_analysis_items_def
  collect_tournaments_def collect_competitions_def collect_results_def append_default_def
  summarize_def summary_of_def np_mean_def np_median_def np_min_def np_max_def

section \<open>The order of the shapes\<close>



section \<open>The mean trajectory\<close>

lemma init_dict_of: "init_step_to_values m = dict_of m (\<lambda>s. [])"
  by (simp add: init_step_to_values_def dict_of_def)

lemma map_of_dict_of:
  "map_of (dict_of m g) s = (if 0 \<le> s \<and> s \<le> m then Some (g s) else None)"
proof -
  have "map_of (map (\<lambda>s. (s, g s)) xs) s = (if s \<in> set xs then Some (g s) else None)" for xs
    by (induction xs) auto
  then show ?thesis by (simp add: dict_of_def)
qed

lemma update_map_distinct:
  "distinct xs \<Longrightarrow> k \<in> set xs \<Longrightarrow>
   AList.update k v (map (\<lambda>s. (s, g s)) xs) = map (\<lambda>s. (s, (g(k := v)) s)) xs"
  by (induction xs) auto

lemma update_dict_of:
  "0 \<le> k \<Longrightarrow> k \<le> m \<Longrightarrow> AList.update k v (dict_of m g) = dict_of m (g(k := v))"
  unfolding dict_of_def by (rule update_map_distinct) simp_all

lemma append_at_dict_of:
  "append_at k v (dict_of m g) =
     (if 0 \<le> k \<and> k \<le> m then Inr (dict_of m (g(k := g k @ [v]))) else Inl KeyError)"
  by (simp add: append_at_def map_of_dict_of update_dict_of)

lemma observations_dict_of:
  "\<forall>p\<in>set ps. 0 \<le> fst p \<and> fst p \<le> m \<Longrightarrow>
   foldM (\<lambda>(step, v). append_at step v) ps (dict_of m g) =
     Inr (dict_of m (\<lambda>s. g s @ map snd (filter (\<lambda>p. fst p = s) ps)))"
proof (induction ps arbitrary: g)
  case Nil
  then show ?case by simp
next
  case (Cons p ps)
  obtain k v where p: "p = (k, v)" by (cases p)
  have step: "append_at k v (dict_of m g) = Inr (dict_of m (g(k := g k @ [v])))"
    using Cons.prems by (simp add: p append_at_dict_of)
  have rest: "foldM (\<lambda>(step, v). append_at step v) ps (dict_of m (g(k := g k @ [v]))) =
      Inr (dict_of m (\<lambda>s. (g(k := g k @ [v])) s @ map snd (filter (\<lambda>p. fst p = s) ps)))"
    using Cons.prems by (intro Cons.IH) simp
  have eq: "(\<lambda>s. (g(k := g k @ [v])) s @ map snd (filter (\<lambda>p. fst p = s) ps)) =
        (\<lambda>s. g s @ map snd (filter (\<lambda>p. fst p = s) ((k, v) # ps)))"
    by (auto simp: fun_eq_iff)
  show ?case
    unfolding p by (simp only: foldM.simps prod.case step bnd_Inr rest eq)
qed

lemma observations_KeyError:
  "\<exists>p\<in>set ps. \<not> (0 \<le> fst p \<and> fst p \<le> m) \<Longrightarrow>
   foldM (\<lambda>(step, v). append_at step v) ps (dict_of m g) = Inl KeyError"
proof (induction ps arbitrary: g)
  case Nil
  then show ?case by simp
next
  case (Cons p ps)
  obtain k v where p: "p = (k, v)" by (cases p)
  show ?case
  proof (cases "0 \<le> k \<and> k \<le> m")
    case True
    with Cons.prems have "\<exists>p\<in>set ps. \<not> (0 \<le> fst p \<and> fst p \<le> m)" by (auto simp: p)
    from Cons.IH [OF this, of "g(k := g k @ [v])"] have
      "foldM (\<lambda>(step, v). append_at step v) ps (dict_of m (g(k := g k @ [v]))) = Inl KeyError" .
    moreover have "append_at k v (dict_of m g) = Inr (dict_of m (g(k := g k @ [v])))"
      using True by (simp add: append_at_dict_of)
    ultimately show ?thesis
      unfolding p by (simp only: foldM.simps prod.case bnd_Inr)
  next
    case False
    then have "append_at k v (dict_of m g) = Inl KeyError"
      by (simp add: append_at_dict_of)
    then show ?thesis
      unfolding p by (simp only: foldM.simps prod.case bnd_Inl)
  qed
qed

lemma fill_dict_of:
  "distinct xs \<Longrightarrow> \<forall>s\<in>set xs. 0 \<le> s \<and> s \<le> m \<Longrightarrow>
   foldM (\<lambda>s. append_at s lv) xs (dict_of m g) =
     Inr (dict_of m (\<lambda>s. g s @ (if s \<in> set xs then [lv] else [])))"
proof (induction xs arbitrary: g)
  case Nil
  then show ?case by simp
next
  case (Cons x xs)
  have step: "append_at x lv (dict_of m g) = Inr (dict_of m (g(x := g x @ [lv])))"
    using Cons.prems by (simp add: append_at_dict_of)
  have rest: "foldM (\<lambda>s. append_at s lv) xs (dict_of m (g(x := g x @ [lv]))) =
      Inr (dict_of m (\<lambda>s. (g(x := g x @ [lv])) s @ (if s \<in> set xs then [lv] else [])))"
    using Cons.prems by (intro Cons.IH) simp_all
  have eq: "(\<lambda>s. (g(x := g x @ [lv])) s @ (if s \<in> set xs then [lv] else [])) =
        (\<lambda>s. g s @ (if s \<in> set (x # xs) then [lv] else []))"
    using Cons.prems(1) by (auto simp: fun_eq_iff)
  show ?case
    by (simp only: foldM.simps step bnd_Inr rest eq)
qed

lemma dict_of_cong:
  "(\<And>s. 0 \<le> s \<Longrightarrow> s \<le> m \<Longrightarrow> g s = h s) \<Longrightarrow> dict_of m g = dict_of m h"
  by (simp add: dict_of_def)

lemma run_ok_last:
  assumes "run_ok (ss, vs)" and "s \<in> set ss"
  shows "0 \<le> s" and "s \<le> last ss" and "s \<le> terminal_step (ss, vs)"
proof -
  from assms show "0 \<le> s" by (simp add: run_ok_def)
  from assms have sorted: "sorted ss" and ne: "ss \<noteq> []" by (auto simp: run_ok_def)
  from assms(2) obtain i where i: "i < length ss" "ss ! i = s" by (auto simp: in_set_conv_nth)
  have "ss ! i \<le> ss ! (length ss - 1)"
    using sorted i(1) by (intro sorted_nth_mono) auto
  then show "s \<le> last ss" using i ne by (simp add: last_conv_nth)
  then show "s \<le> terminal_step (ss, vs)" using ne by (simp add: terminal_step_def)
qed

lemma add_run_dict_of:
  assumes ok: "run_ok r" and le: "terminal_step r \<le> m"
  shows "add_run m r (dict_of m g) = Inr (dict_of m (\<lambda>s. g s @ contribution r s))"
proof -
  obtain ss vs where r: "r = (ss, vs)" by (cases r)
  have len: "length ss = length vs" using ok by (simp add: r run_ok_def)
  have in_range: "\<forall>p\<in>set (zip ss vs). 0 \<le> fst p \<and> fst p \<le> m"
  proof
    fix p assume "p \<in> set (zip ss vs)"
    then have "fst p \<in> set ss" by (metis set_zip_leftD prod.collapse)
    from run_ok_last [OF ok [unfolded r] this] le show "0 \<le> fst p \<and> fst p \<le> m"
      by (simp add: r)
  qed
  note obs = observations_dict_of [OF in_range, of g]
  show ?thesis
  proof (cases "ss = []")
    case True
    then show ?thesis using len by (simp add: r add_run_def contribution_def)
  next
    case False
    then have vs: "vs \<noteq> []" using len by auto
    have "0 \<le> last ss" using run_ok_last(1) [OF ok [unfolded r], of "last ss"] False by simp
    then have range: "\<forall>s\<in>set [last ss + 1..m]. 0 \<le> s \<and> s \<le> m" by auto
    have "dict_of m (\<lambda>s. (g s @ map snd (filter (\<lambda>p. fst p = s) (zip ss vs))) @
              (if s \<in> set [last ss + 1..m] then [last vs] else [])) =
          dict_of m (\<lambda>s. g s @ contribution (ss, vs) s)"
      by (rule dict_of_cong) (auto simp: contribution_def False)
    then show ?thesis
      using False vs obs fill_dict_of [OF distinct_upto range]
      by (simp add: r add_run_def)
  qed
qed

lemma runs_dict_of:
  assumes "\<forall>r\<in>set runs. run_ok r \<and> terminal_step r \<le> m"
  shows "foldM (add_run m) runs (dict_of m g) =
           Inr (dict_of m (\<lambda>s. g s @ concat (map (\<lambda>r. contribution r s) runs)))"
  using assms
proof (induction runs arbitrary: g)
  case Nil
  then show ?case by simp
next
  case (Cons r runs)
  then show ?case by (simp add: add_run_dict_of)
qed

lemma py_max_eq: "xs \<noteq> [] \<Longrightarrow> py_max xs = Inr (Max (set xs))"
proof (cases xs)
  case (Cons a list)
  then show ?thesis using Max.set_eq_fold [of a list] by simp
qed simp

lemma terminal_step_le_max: "r \<in> set runs \<Longrightarrow> terminal_step r \<le> max_step_of runs"
  by (simp add: max_step_of_def)

lemma build_step_to_values_eq:
  assumes "runs \<noteq> []" and "\<forall>r\<in>set runs. run_ok r"
  shows "build_step_to_values runs =
           Inr (dict_of (max_step_of runs) (\<lambda>s. concat (map (\<lambda>r. contribution r s) runs)))"
proof -
  have m: "py_max (map terminal_step runs) = Inr (max_step_of runs)"
    using assms(1) by (simp add: py_max_eq max_step_of_def)
  have "\<forall>r\<in>set runs. run_ok r \<and> terminal_step r \<le> max_step_of runs"
    using assms(2) terminal_step_le_max by blast
  from runs_dict_of [OF this, of "\<lambda>s. []"] m show ?thesis
    by (simp add: build_step_to_values_def init_dict_of)
qed

lemma mapM_Inr:
  "\<forall>x\<in>set xs. f x = Inr (g x) \<Longrightarrow> mapM f xs = Inr (map g xs)"
  by (induction xs) simp_all

lemma aggregate_runs_eq:
  assumes "runs \<noteq> []" and "\<forall>r\<in>set runs. run_ok r"
  shows "aggregate_runs runs =
           Inr \<lparr>agg_steps = [0..max_step_of runs],
                agg_values = map (\<lambda>s. mean_or_zero (concat (map (\<lambda>r. contribution r s) runs)))
                               [0..max_step_of runs]\<rparr>"
proof -
  let ?m = "max_step_of runs"
  let ?g = "\<lambda>s. concat (map (\<lambda>r. contribution r s) runs)"
  have keys: "sort (map fst (dict_of ?m ?g)) = [0..?m]"
    by (simp add: dict_of_def comp_def sorted_sort_id)
  have vals: "mapM (\<lambda>s. case map_of (dict_of ?m ?g) s of
                            None \<Rightarrow> Inl KeyError
                          | Some vs \<Rightarrow> Inr (if vs \<noteq> [] then np_mean vs else 0)) [0..?m] =
        Inr (map (\<lambda>s. mean_or_zero (?g s)) [0..?m])"
    by (rule mapM_Inr) (simp add: map_of_dict_of mean_or_zero_def)
  show ?thesis
    unfolding aggregate_runs_def build_step_to_values_eq [OF assms] bnd_Inr Let_def keys vals
    by simp
qed

lemma map_of_fold_update:
  "distinct (map fst kvs) \<Longrightarrow>
   map_of (fold (\<lambda>(k, v) acc. if P v then AList.update k (f v) acc else acc) kvs acc) x =
   (case map_of kvs x of
      None \<Rightarrow> map_of acc x
    | Some v \<Rightarrow> if P v then Some (f v) else map_of acc x)"
proof (induction kvs arbitrary: acc)
  case Nil
  then show ?case by simp
next
  case (Cons p kvs)
  obtain k v where p: "p = (k, v)" by (cases p)
  from Cons.prems have d: "distinct (map fst kvs)" and k: "k \<notin> fst ` set kvs"
    by (auto simp: p)
  from k have none: "map_of kvs k = None"
    by (simp add: map_of_eq_None_iff)
  show ?case
    using none by (auto simp: p Cons.IH [OF d] update_conv' split: option.splits)
qed

lemma aggregate_fold:
  "\<forall>p\<in>set hists. \<forall>r\<in>set (snd p). run_ok r \<Longrightarrow>
   foldM (\<lambda>(optimizer_name, runs) aggregated.
         if runs = [] then Inr aggregated
         else bnd (aggregate_runs runs) (\<lambda>t. Inr (AList.update optimizer_name t aggregated)))
       hists acc =
   Inr (fold (\<lambda>(name, runs) acc.
          if runs \<noteq> [] then AList.update name (trajectory_of runs) acc else acc) hists acc)"
proof (induction hists arbitrary: acc)
  case Nil
  then show ?case by simp
next
  case (Cons p hists)
  obtain name runs where p: "p = (name, runs)" by (cases p)
  have ok: "\<forall>r\<in>set runs. run_ok r" using Cons.prems by (simp add: p)
  have rest: "\<forall>p\<in>set hists. \<forall>r\<in>set (snd p). run_ok r" using Cons.prems by simp
  show ?case
  proof (cases "runs = []")
    case True
    then show ?thesis using Cons.IH [OF rest] by (simp add: p)
  next
    case False
    from aggregate_runs_eq [OF False ok] have "aggregate_runs runs = Inr (trajectory_of runs)"
      by (simp add: trajectory_of_def)
    then show ?thesis using False Cons.IH [OF rest] by (simp add: p)
  qed
qed

lemma aggregate_open_race_histories_eq:
  assumes "\<forall>p\<in>set hists. \<forall>r\<in>set (snd p). run_ok r"
  shows "aggregate_open_race_histories hists =
     Inr (fold (\<lambda>(name, runs) acc.
          if runs \<noteq> [] then AList.update name (trajectory_of runs) acc else acc) hists [])"
  unfolding aggregate_open_race_histories_def by (rule aggregate_fold [OF assms])

lemma map_of_aggregated:
  assumes "distinct (map fst hists)"
  shows "map_of (fold (\<lambda>(name, runs) acc.
          if runs \<noteq> [] then AList.update name (trajectory_of runs) acc else acc) hists []) name =
     (case map_of hists name of
        None \<Rightarrow> None
      | Some runs \<Rightarrow> if runs \<noteq> [] then Some (trajectory_of runs) else None)"
  using map_of_fold_update [OF assms, of "\<lambda>runs. runs \<noteq> []" trajectory_of "[]" name]
  by (simp split: option.splits)


lemma nth_agg_values:
  assumes "0 \<le> s" and "s \<le> max_step_of runs"
  shows "agg_values (trajectory_of runs) ! nat s =
           mean_or_zero (concat (map (\<lambda>r. contribution r s) runs))"
proof -
  have "nat s < length [0..max_step_of runs]" using assms by simp
  moreover have "[0..max_step_of runs] ! nat s = s"
    using assms by (simp add: nth_upto)
  ultimately show ?thesis by (simp add: trajectory_of_def)
qed

lemma contribution_at_observation:
  assumes "length ss = length vs" and "i < length ss"
  shows "vs ! i \<in> set (contribution (ss, vs) (ss ! i))"
proof -
  have "(ss ! i, vs ! i) \<in> set (zip ss vs)"
    using assms by (auto simp: set_zip)
  then have "(ss ! i, vs ! i) \<in> set (filter (\<lambda>p. fst p = ss ! i) (zip ss vs))" by simp
  then have "snd (ss ! i, vs ! i) \<in> snd ` set (filter (\<lambda>p. fst p = ss ! i) (zip ss vs))"
    by (rule imageI)
  then show ?thesis by (simp add: contribution_def)
qed

lemma filter_zip_absent:
  "s \<notin> set ss \<Longrightarrow> filter (\<lambda>p. fst p = s) (zip ss vs) = []"
  by (auto simp: filter_empty_conv dest: set_zip_leftD)

lemma contribution_beyond_last:
  assumes "run_ok (ss, vs)" and "ss \<noteq> []" and "last ss < s"
  shows "contribution (ss, vs) s = [last vs]"
proof -
  have "s \<notin> set ss" using run_ok_last(2) [OF assms(1), of s] assms(3) by auto
  then show ?thesis using assms(2,3) by (simp add: contribution_def filter_zip_absent)
qed

lemma contribution_gap:
  assumes "s \<notin> set ss" and "ss = [] \<or> s \<le> last ss"
  shows "contribution (ss, vs) s = []"
  using assms by (auto simp: contribution_def filter_zip_absent)

lemmas aggregate_defs =
  aggregate_open_race_histories_def aggregate_runs_def build_step_to_values_def
  add_run_def append_at_def init_step_to_values_def terminal_step_def np_mean_def upto_rec1

text \<open>
  C2, as stated, fails: a run observed only at steps 0 and 3 adds nothing to the samples
  of steps 1 and 2.
\<close>

theorem forward_fill_gap_counterexample:
  "build_step_to_values [([0, 3], [2, 5])] = Inr [(0, [2]), (1, []), (2, []), (3, [5])]"
  by (simp add: aggregate_defs)

text \<open>
  C2, amended. For runs that satisfy \<open>run_ok\<close>, \<^verbatim>\<open>step_to_values\<close> is built without
  an exception and holds at every step from 0 to the largest terminal step the
  contributions of all runs, in order. A run contributes the value of each of its
  observations at that exact step; beyond its last observed step it contributes its last
  value; at a step that is not beyond its last step and has no observation it contributes
  nothing. A run observed at steps 0 and 3 with values 2 and 5, next to a run that extends
  to step 5, contributes 2 at step 0, nothing at steps 1 and 2, and 5 at steps 3 to 5.
\<close>

theorem forward_fill_contribution:
  assumes "runs \<noteq> []" and "\<forall>r\<in>set runs. run_ok r"
  shows "(\<exists>step_to_values. build_step_to_values runs = Inr step_to_values \<and>
            (\<forall>s. 0 \<le> s \<and> s \<le> max_step_of runs \<longrightarrow>
               map_of step_to_values s = Some (concat (map (\<lambda>r. contribution r s) runs)))) \<and>
         (\<forall>ss vs i. (ss, vs) \<in> set runs \<and> i < length ss \<longrightarrow>
            vs ! i \<in> set (contribution (ss, vs) (ss ! i))) \<and>
         (\<forall>ss vs s. (ss, vs) \<in> set runs \<and> ss \<noteq> [] \<and> last ss < s \<longrightarrow>
            contribution (ss, vs) s = [last vs]) \<and>
         (\<forall>ss vs s. (ss, vs) \<in> set runs \<and> s \<notin> set ss \<and> (ss = [] \<or> s \<le> last ss) \<longrightarrow>
            contribution (ss, vs) s = []) \<and>
         build_step_to_values [([0, 3], [2, 5]), ([0, 1, 2, 3, 4, 5], [1, 1, 1, 1, 1, 1])] =
           Inr [(0, [2, 1]), (1, [1]), (2, [1]), (3, [5, 1]), (4, [5, 1]), (5, [5, 1])]"
proof (intro conjI allI impI)
  show "\<exists>step_to_values. build_step_to_values runs = Inr step_to_values \<and>
            (\<forall>s. 0 \<le> s \<and> s \<le> max_step_of runs \<longrightarrow>
               map_of step_to_values s = Some (concat (map (\<lambda>r. contribution r s) runs)))"
    by (simp add: build_step_to_values_eq [OF assms] map_of_dict_of)
next
  fix ss vs i
  assume a: "(ss, vs) \<in> set runs \<and> i < length ss"
  then have "length ss = length vs" using assms(2) by (auto simp: run_ok_def)
  with a show "vs ! i \<in> set (contribution (ss, vs) (ss ! i))"
    by (simp add: contribution_at_observation)
next
  fix ss vs s
  assume "(ss, vs) \<in> set runs \<and> ss \<noteq> [] \<and> last ss < s"
  then show "contribution (ss, vs) s = [last vs]"
    using assms(2) by (auto intro: contribution_beyond_last)
next
  fix ss vs s
  assume "(ss, vs) \<in> set runs \<and> s \<notin> set ss \<and> (ss = [] \<or> s \<le> last ss)"
  then show "contribution (ss, vs) s = []"
    by (intro contribution_gap) auto
next
  have ok: "\<forall>r\<in>set [([0, 3], [2, 5]), ([0, 1, 2, 3, 4, 5], [1, 1, 1, 1, 1, 1::real])]. run_ok r"
    by (simp add: run_ok_def)
  have m: "max_step_of [([0, 3], [2, 5]), ([0, 1, 2, 3, 4, 5], [1, 1, 1, 1, 1, 1::real])] = 5"
    by (simp add: max_step_of_def terminal_step_def)
  show "build_step_to_values [([0, 3], [2, 5]), ([0, 1, 2, 3, 4, 5], [1, 1, 1, 1, 1, 1])] =
           Inr [(0, [2, 1]), (1, [1]), (2, [1]), (3, [5, 1]), (4, [5, 1]), (5, [5, 1])]"
    by (subst build_step_to_values_eq [OF _ ok])
       (simp_all add: m dict_of_def contribution_def upto_rec1)
qed

theorem forward_fill_contribution_witness:
  "contribution ([0, 3], [2, 5]) 0 = [2] \<and>
   contribution ([0, 3], [2, 5]) 1 = [] \<and>
   contribution ([0, 3], [2, 5]) 2 = [] \<and>
   contribution ([0, 3], [2, 5]) 3 = [5] \<and>
   contribution ([0, 3], [2, 5]) 4 = [5]"
proof -
  have h1: "[([0, 3], [2, 5::real])] \<noteq> []" by simp
  have h2: "\<forall>r\<in>set [([0, 3], [2, 5::real])]. run_ok r" by (simp add: run_ok_def)
  note t = forward_fill_contribution [OF h1 h2]
  have "contribution ([0, 3], [2, 5]) 4 = [last [2, 5 :: real]]"
    using t by simp
  moreover have "contribution ([0, 3], [2, 5 :: real]) 1 = []" "contribution ([0, 3], [2, 5 :: real]) 2 = []"
    using t by simp_all
  moreover have "contribution ([0, 3], [2, 5 :: real]) 0 = [2]" "contribution ([0, 3], [2, 5 :: real]) 3 = [5]"
    by (simp_all add: contribution_def)
  ultimately show ?thesis by simp
qed

lemma two_observations_mset:
  assumes "i < j" and "j < length ps" and "P (ps ! i)" and "P (ps ! j)"
  shows "{#f (ps ! i), f (ps ! j)#} \<subseteq># mset (map f (filter P ps))"
proof -
  let ?rest = "drop (Suc i) ps"
  have i: "i < length ps" using assms(1,2) by simp
  have split1: "ps = take i ps @ ps ! i # ?rest"
    by (rule id_take_nth_drop [OF i])
  have j': "j - Suc i < length ?rest" using assms(1,2) by simp
  have nth: "?rest ! (j - Suc i) = ps ! j" using assms(1,2) by simp
  have split2: "?rest = take (j - Suc i) ?rest @ ps ! j # drop (Suc (j - Suc i)) ?rest"
    using id_take_nth_drop [OF j'] nth by simp
  have "mset (map f (filter P ps)) =
        mset (map f (filter P (take i ps))) + {#f (ps ! i)#} + mset (map f (filter P ?rest))"
    using assms(3) by (subst split1) simp
  also have "mset (map f (filter P ?rest)) =
        mset (map f (filter P (take (j - Suc i) ?rest))) + {#f (ps ! j)#} +
        mset (map f (filter P (drop (Suc (j - Suc i)) ?rest)))"
    using assms(4) by (subst split2) simp
  finally show ?thesis by simp
qed

lemma contribution_two_observations:
  assumes "length ss = length vs" and "i < j" and "j < length ss"
    and "ss ! i = s" and "ss ! j = s"
  shows "{#vs ! i, vs ! j#} \<subseteq># mset (contribution (ss, vs) s)"
proof -
  have len: "j < length (zip ss vs)" using assms(1,3) by simp
  have i: "zip ss vs ! i = (ss ! i, vs ! i)" and j: "zip ss vs ! j = (ss ! j, vs ! j)"
    using assms(1,2,3) by simp_all
  from two_observations_mset [OF assms(2) len, of "\<lambda>p. fst p = s" snd]
  have "{#vs ! i, vs ! j#} \<subseteq># mset (map snd (filter (\<lambda>p. fst p = s) (zip ss vs)))"
    using assms(4,5) by (simp add: i j)
  then show ?thesis
    by (simp add: contribution_def subset_mset.add_increasing2)
qed

lemma mset_contribution_le_samples:
  "r \<in> set runs \<Longrightarrow> mset (f r) \<subseteq># mset (concat (map f runs))"
proof (induction runs)
  case Nil
  then show ?case by simp
next
  case (Cons a runs)
  then show ?case
    by (auto simp: subset_mset.add_increasing subset_mset.add_increasing2)
qed

text \<open>
  C10. When a run has two observations, at positions \<open>i < j\<close>, with the same step \<open>s\<close>,
  both values are among the samples the run adds to \<^verbatim>\<open>step_to_values[s]\<close>, all of them are
  in the sample list of \<open>s\<close>, and the value of the trajectory at \<open>s\<close> is the sum of that
  list over its length: the run counts twice in the mean.
\<close>

theorem duplicate_step_samples:
  assumes "\<forall>r\<in>set runs. run_ok r" and "(ss, vs) \<in> set runs"
    and "i < j" and "j < length ss" and "ss ! i = s" and "ss ! j = s"
  shows "\<exists>step_to_values samples t.
           build_step_to_values runs = Inr step_to_values \<and>
           map_of step_to_values s = Some samples \<and>
           {#vs ! i, vs ! j#} \<subseteq># mset (contribution (ss, vs) s) \<and>
           mset (contribution (ss, vs) s) \<subseteq># mset samples \<and>
           aggregate_runs runs = Inr t \<and>
           agg_values t ! nat s = sum_list samples / real (length samples)"
proof -
  have ne: "runs \<noteq> []" using assms(2) by auto
  have ok: "run_ok (ss, vs)" using assms(1,2) by auto
  then have len: "length ss = length vs" by (simp add: run_ok_def)
  have mem: "s \<in> set ss" using assms(4,6) by auto
  have s0: "0 \<le> s" by (rule run_ok_last(1) [OF ok mem])
  have "s \<le> terminal_step (ss, vs)" by (rule run_ok_last(3) [OF ok mem])
  with terminal_step_le_max [OF assms(2)] have sm: "s \<le> max_step_of runs" by simp
  let ?samples = "concat (map (\<lambda>r. contribution r s) runs)"
  have two: "{#vs ! i, vs ! j#} \<subseteq># mset (contribution (ss, vs) s)"
    by (rule contribution_two_observations [OF len assms(3,4,5,6)])
  have sub: "mset (contribution (ss, vs) s) \<subseteq># mset ?samples"
    by (rule mset_contribution_le_samples [OF assms(2)])
  have both: "{#vs ! i, vs ! j#} \<subseteq># mset ?samples"
    using two sub by (rule subset_mset.order_trans)
  have nonempty: "?samples \<noteq> []"
  proof
    assume "?samples = []"
    then have "mset ?samples = {#}" by (simp only: mset.simps)
    with both show False by simp
  qed
  have val: "agg_values (trajectory_of runs) ! nat s = sum_list ?samples / real (length ?samples)"
    using nonempty by (simp add: nth_agg_values [OF s0 sm] mean_or_zero_def np_mean_def)
  have agg: "aggregate_runs runs = Inr (trajectory_of runs)"
    using aggregate_runs_eq [OF ne assms(1)] by (simp add: trajectory_of_def)
  show ?thesis
    using two sub val agg s0 sm
    by (intro exI [of _ "dict_of (max_step_of runs) (\<lambda>s. concat (map (\<lambda>r. contribution r s) runs))"]
          exI [of _ ?samples] exI [of _ "trajectory_of runs"])
       (simp add: build_step_to_values_eq [OF ne assms(1)] map_of_dict_of)
qed

theorem duplicate_step_samples_witness:
  "build_step_to_values [([1, 1], [2, 4]), ([0, 1], [10, 10])] =
     Inr [(0, [10]), (1, [2, 4, 10])] \<and>
   aggregate_runs [([1, 1], [2, 4]), ([0, 1], [10, 10])] =
     Inr \<lparr>agg_steps = [0, 1], agg_values = [10, 16 / 3]\<rparr>"
proof -
  have h1: "\<forall>r\<in>set [([1, 1], [2, 4]), ([0, 1], [10, 10::real])]. run_ok r"
    by (simp add: run_ok_def)
  have h2: "([1, 1], [2, 4]) \<in> set [([1, 1], [2, 4]), ([0, 1], [10, 10::real])]"
    by simp
  from duplicate_step_samples [OF h1 h2, of 0 1 1]
  obtain step_to_values t where
    "build_step_to_values [([1, 1], [2, 4]), ([0, 1], [10, 10])] = Inr step_to_values"
    "aggregate_runs [([1, 1], [2, 4]), ([0, 1], [10, 10])] = Inr t"
    by auto
  moreover have "build_step_to_values [([1, 1], [2, 4]), ([0, 1], [10, 10])] =
     Inr [(0, [10]), (1, [2, 4, 10])]"
    by (simp add: aggregate_defs)
  moreover have "aggregate_runs [([1, 1], [2, 4]), ([0, 1], [10, 10])] =
     Inr \<lparr>agg_steps = [0, 1], agg_values = [10, 16 / 3]\<rparr>"
    by (simp add: aggregate_defs)
  ultimately show ?thesis by simp
qed

lemma filter_zip_distinct:
  "length ss = length vs \<Longrightarrow> distinct ss \<Longrightarrow> i < length ss \<Longrightarrow>
   map snd (filter (\<lambda>p. fst p = ss ! i) (zip ss vs)) = [vs ! i]"
proof (induction ss vs arbitrary: i rule: list_induct2)
  case Nil
  then show ?case by simp
next
  case (Cons x xs y ys)
  show ?case
  proof (cases i)
    case 0
    have "x \<notin> set xs" using Cons.prems by simp
    then show ?thesis by (simp add: 0 filter_zip_absent)
  next
    case (Suc k)
    then have k: "k < length xs" using Cons.prems by simp
    then have "xs ! k \<in> set xs" by simp
    then have "xs ! k \<noteq> x" using Cons.prems by auto
    then show ?thesis using Cons.IH [OF _ k] Cons.prems by (simp add: Suc)
  qed
qed

lemma dense_run_ok: "dense_run r \<Longrightarrow> run_ok r"
  by (cases r) (auto simp: dense_run_def run_ok_def)

lemma dense_contribution:
  assumes "dense_run (ss, vs)" and "0 \<le> s"
  shows "contribution (ss, vs) s = [vs ! min (nat s) (length vs - 1)]"
proof -
  let ?n = "length vs"
  from assms(1) have ne: "vs \<noteq> []" and ss: "ss = [0..int ?n - 1]"
    by (simp_all add: dense_run_def)
  have n: "0 < ?n" using ne by simp
  have len: "length ss = ?n" using n by (simp add: ss)
  have ssne: "ss \<noteq> []" using len n by auto
  have d: "distinct ss" by (simp add: ss)
  have "last ss = ss ! (?n - 1)" using ssne len by (simp add: last_conv_nth)
  also have "\<dots> = 0 + int (?n - 1)"
    unfolding ss by (rule nth_upto) (use n in linarith)
  also have "\<dots> = int ?n - 1" using n by linarith
  finally have last_ss: "last ss = int ?n - 1" .
  show ?thesis
  proof (cases "s \<le> int ?n - 1")
    case True
    then have i: "nat s < length ss" using assms(2) len by simp
    have "ss ! nat s = s" using True assms(2) by (simp add: ss nth_upto)
    with filter_zip_distinct [OF len d i]
    have "map snd (filter (\<lambda>p. fst p = s) (zip ss vs)) = [vs ! nat s]" by simp
    moreover have "min (nat s) (?n - 1) = nat s" using True assms(2) by simp
    ultimately show ?thesis using True ssne last_ss by (simp add: contribution_def)
  next
    case False
    then have "s \<notin> set ss" by (simp add: ss)
    moreover have "min (nat s) (?n - 1) = ?n - 1" using False by simp
    moreover have "last vs = vs ! (?n - 1)" using ne by (simp add: last_conv_nth)
    ultimately show ?thesis
      using False ssne last_ss by (simp add: contribution_def filter_zip_absent)
  qed
qed

lemma dense_samples:
  assumes "\<forall>r\<in>set runs. dense_run r" and "0 \<le> s"
  shows "concat (map (\<lambda>r. contribution r s) runs) =
           map (\<lambda>r. snd r ! min (nat s) (length (snd r) - 1)) runs"
  using assms(1)
proof (induction runs)
  case Nil
  then show ?case by simp
next
  case (Cons r runs)
  obtain ss vs where r: "r = (ss, vs)" by (cases r)
  from Cons.prems have "dense_run (ss, vs)" by (simp add: r)
  from dense_contribution [OF this assms(2)] Cons show ?case by (simp add: r)
qed

lemma dense_value_mono:
  assumes "dense_run r" and "0 \<le> s" and "s \<le> s'"
  shows "snd r ! min (nat s) (length (snd r) - 1) \<le> snd r ! min (nat s') (length (snd r) - 1)"
proof -
  from assms(1) have "sorted (snd r)" and "snd r \<noteq> []"
    by (cases r; simp add: dense_run_def)+
  then have srt: "sorted (snd r)" and pos: "0 < length (snd r)" by simp_all
  have le: "min (nat s) (length (snd r) - 1) \<le> min (nat s') (length (snd r) - 1)"
    using assms(2,3) by linarith
  have lt: "min (nat s') (length (snd r) - 1) < length (snd r)"
    using pos by linarith
  show ?thesis by (rule sorted_nth_mono [OF srt le lt])
qed

lemma dense_mean_mono:
  assumes "runs \<noteq> []" and "\<forall>r\<in>set runs. dense_run r" and "0 \<le> s" and "s \<le> s'"
  shows "mean_or_zero (concat (map (\<lambda>r. contribution r s) runs)) \<le>
         mean_or_zero (concat (map (\<lambda>r. contribution r s') runs))"
proof -
  have s': "0 \<le> s'" using assms(3,4) by simp
  have "sum_list (map (\<lambda>r. snd r ! min (nat s) (length (snd r) - 1)) runs) \<le>
        sum_list (map (\<lambda>r. snd r ! min (nat s') (length (snd r) - 1)) runs)"
    using assms(2) by (intro sum_list_mono dense_value_mono [OF _ assms(3,4)]) simp
  then show ?thesis
    using assms(1)
    by (simp add: dense_samples [OF assms(2,3)] dense_samples [OF assms(2) s']
        mean_or_zero_def np_mean_def divide_right_mono)
qed

lemma dense_trajectory_sorted:
  assumes "runs \<noteq> []" and "\<forall>r\<in>set runs. dense_run r"
  shows "sorted (agg_values (trajectory_of runs))"
proof -
  let ?h = "\<lambda>s. mean_or_zero (concat (map (\<lambda>r. contribution r s) runs))"
  have "sorted_wrt (\<lambda>s s'. ?h s \<le> ?h s') [0..max_step_of runs]"
  proof (rule sorted_wrt_mono_rel [of _ "(\<le>)"])
    fix s s' :: int
    assume "s \<in> set [0..max_step_of runs]" "s' \<in> set [0..max_step_of runs]" "s \<le> s'"
    then show "?h s \<le> ?h s'"
      by (intro dense_mean_mono [OF assms]) simp_all
  qed simp
  then show ?thesis by (simp add: trajectory_of_def sorted_map)
qed

text \<open>
  C1, as stated, fails: two runs with non-decreasing values, one of them first observed
  at step 1, give the means 10 and 6.
\<close>

theorem mean_trajectory_counterexample:
  "aggregate_open_race_histories [(''A'', [([0, 1], [10, 10]), ([1], [2])])] =
     Inr [(''A'', \<lparr>agg_steps = [0, 1], agg_values = [10, 6]\<rparr>)] \<and> \<not> sorted [10, 6 :: real]"
  by (simp add: aggregate_defs)

text \<open>
  C1, amended. When every run of every optimizer has exactly one observation at each
  step from 0 to its last step, and non-decreasing values, the aggregation returns a
  mapping and the values of every trajectory in it never decrease.
\<close>

theorem dense_trajectory_monotone:
  assumes "distinct (map fst hists)" and "\<forall>p\<in>set hists. \<forall>r\<in>set (snd p). dense_run r"
  shows "\<exists>out. aggregate_open_race_histories hists = Inr out \<and>
           (\<forall>name t i. map_of out name = Some t \<and> 0 < i \<and> i < length (agg_values t) \<longrightarrow>
              agg_values t ! (i - 1) \<le> agg_values t ! i)"
proof -
  let ?out = "fold (\<lambda>(name, runs) acc.
          if runs \<noteq> [] then AList.update name (trajectory_of runs) acc else acc) hists []"
  have ok: "\<forall>p\<in>set hists. \<forall>r\<in>set (snd p). run_ok r"
    using assms(2) dense_run_ok by blast
  have out: "aggregate_open_race_histories hists = Inr ?out"
    by (rule aggregate_open_race_histories_eq [OF ok])
  have "agg_values t ! (i - 1) \<le> agg_values t ! i"
    if h: "map_of ?out name = Some t \<and> 0 < i \<and> i < length (agg_values t)" for name t i
  proof -
    from h obtain runs where runs: "map_of hists name = Some runs" "runs \<noteq> []"
      and t: "t = trajectory_of runs"
      by (auto simp: map_of_aggregated [OF assms(1)] split: option.splits if_splits)
    from runs(1) have "(name, runs) \<in> set hists" by (rule map_of_SomeD)
    then have "\<forall>r\<in>set runs. dense_run r" using assms(2) by force
    from dense_trajectory_sorted [OF runs(2) this] have "sorted (agg_values t)" by (simp add: t)
    then show ?thesis using h by (intro sorted_nth_mono) auto
  qed
  then show ?thesis using out by blast
qed

theorem dense_trajectory_monotone_witness:
  "aggregate_open_race_histories [(''A'', [([0, 1], [1, 3]), ([0, 1, 2], [2, 2, 4])])] =
     Inr [(''A'', \<lparr>agg_steps = [0, 1, 2], agg_values = [3 / 2, 5 / 2, 7 / 2]\<rparr>)] \<and>
   [3 / 2, 5 / 2, 7 / 2 :: real] ! (1 - 1) \<le> [3 / 2, 5 / 2, 7 / 2] ! 1 \<and>
   [3 / 2, 5 / 2, 7 / 2 :: real] ! (2 - 1) \<le> [3 / 2, 5 / 2, 7 / 2] ! 2"
proof -
  have h1: "distinct (map fst [(''A'', [([0, 1], [1, 3]), ([0, 1, 2], [2, 2, 4::real])])])"
    by simp
  have h2: "\<forall>p\<in>set [(''A'', [([0, 1], [1, 3]), ([0, 1, 2], [2, 2, 4::real])])].
      \<forall>r\<in>set (snd p). dense_run r"
    by (simp add: dense_run_def upto_rec1)
  have e: "aggregate_open_race_histories [(''A'', [([0, 1], [1, 3]), ([0, 1, 2], [2, 2, 4])])] =
     Inr [(''A'', \<lparr>agg_steps = [0, 1, 2], agg_values = [3 / 2, 5 / 2, 7 / 2]\<rparr>)]"
    by (simp add: aggregate_defs)
  from dense_trajectory_monotone [OF h1 h2] obtain out where
    o: "aggregate_open_race_histories [(''A'', [([0, 1], [1, 3]), ([0, 1, 2], [2, 2, 4])])] = Inr out"
    and m: "\<forall>name t i. map_of out name = Some t \<and> 0 < i \<and> i < length (agg_values t) \<longrightarrow>
              agg_values t ! (i - 1) \<le> agg_values t ! i"
    by blast
  from o e have out: "out = [(''A'', \<lparr>agg_steps = [0, 1, 2], agg_values = [3 / 2, 5 / 2, 7 / 2]\<rparr>)]"
    by simp
  have l: "map_of out ''A'' = Some \<lparr>agg_steps = [0, 1, 2], agg_values = [3 / 2, 5 / 2, 7 / 2]\<rparr>"
    by (simp add: out)
  have "[3 / 2, 5 / 2, 7 / 2 :: real] ! (1 - 1) \<le> [3 / 2, 5 / 2, 7 / 2] ! 1"
    using m [rule_format, of "''A''" "\<lparr>agg_steps = [0, 1, 2], agg_values = [3 / 2, 5 / 2, 7 / 2]\<rparr>" 1] l
    by simp
  moreover have "[3 / 2, 5 / 2, 7 / 2 :: real] ! (2 - 1) \<le> [3 / 2, 5 / 2, 7 / 2] ! 2"
    using m [rule_format, of "''A''" "\<lparr>agg_steps = [0, 1, 2], agg_values = [3 / 2, 5 / 2, 7 / 2]\<rparr>" 2] l
    by simp
  ultimately show ?thesis using e by simp
qed

section \<open>The repair of one history\<close>

lemma stable_argsort_ok: "argsort_ok stable_argsort"
  by (simp add: argsort_ok_def stable_argsort_def)

lemma Max_take_Suc:
  fixes xs :: "real list"
  assumes "0 < k" and "k < length xs"
  shows "Max (set (take (Suc k) xs)) = max (Max (set (take k xs))) (xs ! k)"
proof -
  have ne: "set (take k xs) \<noteq> {}" using assms by auto
  have "set (take (Suc k) xs) = insert (xs ! k) (set (take k xs))"
    using assms(2) by (simp add: take_Suc_conv_app_nth)
  then show ?thesis using ne by (simp add: max.commute)
qed

lemma nth_map_upt0: "i < n \<Longrightarrow> map f [0..<n] ! i = f i"
  using nth_map_upt [of i n 0 f] by simp

lemma ensure_monotonic_prefix:
  fixes vs :: "real list"
  shows "k \<le> length vs \<Longrightarrow> 0 < k \<Longrightarrow>
   fold (\<lambda>i vs. if vs ! i < vs ! (i - 1) then vs[i := vs ! (i - 1)] else vs) [1..<k] vs =
     map (\<lambda>i. if i < k then Max (set (take (Suc i) vs)) else vs ! i) [0..<length vs]"
proof (induction k)
  case 0
  then show ?case by simp
next
  case (Suc k)
  show ?case
  proof (cases "k = 0")
    case True
    have "vs = map (\<lambda>i. if i < Suc 0 then Max (set (take (Suc i) vs)) else vs ! i) [0..<length vs]"
    proof (rule nth_equalityI)
      fix i assume i: "i < length vs"
      have "Max (set (take (Suc 0) vs)) = vs ! 0"
        using i by (cases vs) simp_all
      then have "(if i < Suc 0 then Max (set (take (Suc i) vs)) else vs ! i) = vs ! i"
        by (cases i) simp_all
      then show "vs ! i = map (\<lambda>i. if i < Suc 0 then Max (set (take (Suc i) vs)) else vs ! i)
                            [0..<length vs] ! i"
        by (simp only: nth_map_upt0 [OF i])
    qed simp
    then show ?thesis using True by simp
  next
    case False
    then have k: "0 < k" "k < length vs" "k \<le> length vs" using Suc.prems by simp_all
    let ?step = "\<lambda>i vs. if vs ! i < vs ! (i - 1) then vs[i := vs ! (i - 1)] else vs"
    let ?cur = "map (\<lambda>i. if i < k then Max (set (take (Suc i) vs)) else vs ! i) [0..<length vs]"
    have IH: "fold ?step [1..<k] vs = ?cur" by (rule Suc.IH [OF k(3,1)])
    have at_k: "?cur ! k = vs ! k" using k by simp
    have before: "?cur ! (k - 1) = Max (set (take k vs))" using k by simp
    have stepeq: "?step k ?cur =
          map (\<lambda>i. if i < Suc k then Max (set (take (Suc i) vs)) else vs ! i) [0..<length vs]"
    proof (rule nth_equalityI)
      show "length (?step k ?cur) = length (map (\<lambda>i. if i < Suc k then Max (set (take (Suc i) vs))
               else vs ! i) [0..<length vs])"
        by simp
    next
      fix i assume "i < length (?step k ?cur)"
      then have i: "i < length vs" by (simp split: if_splits)
      show "?step k ?cur ! i =
            map (\<lambda>i. if i < Suc k then Max (set (take (Suc i) vs)) else vs ! i) [0..<length vs] ! i"
      proof (cases "i = k")
        case True
        have "?step k ?cur ! k = max (Max (set (take k vs))) (vs ! k)"
          using k by (simp only: at_k before) (auto simp: max_def)
        then show ?thesis using True k by (simp add: Max_take_Suc [OF k(1,2)])
      next
        case False
        then have "?step k ?cur ! i = ?cur ! i" by (simp split: if_splits)
        then show ?thesis using False i by auto
      qed
    qed
    have upt: "[1..<Suc k] = [1..<k] @ [k]" using k(1) by simp
    show ?thesis
      by (simp only: upt fold_append fold_Cons fold_Nil comp_apply id_apply IH stepeq)
  qed
qed

lemma ensure_monotonic_running_maximum: "ensure_monotonic vs = running_maximum vs"
proof (cases "vs = []")
  case True
  then show ?thesis by (simp add: ensure_monotonic_def running_maximum_def)
next
  case False
  then have "length vs \<le> length vs" "0 < length vs" by simp_all
  from ensure_monotonic_prefix [OF this] show ?thesis
    by (simp add: ensure_monotonic_def running_maximum_def)
qed

lemma sorted_running_maximum: "sorted (running_maximum xs)"
proof -
  have "Max (set (take (Suc i) xs)) \<le> Max (set (take (Suc j) xs))"
    if "i \<le> j" and "j < length xs" for i j
  proof (rule Max_mono)
    show "set (take (Suc i) xs) \<subseteq> set (take (Suc j) xs)"
      using that by (intro set_take_subset_set_take) simp
    show "set (take (Suc i) xs) \<noteq> {}" using that by (cases xs) auto
  qed simp
  then show ?thesis
    unfolding running_maximum_def sorted_map
    by (intro sorted_wrt_mono_rel [of _ "(\<le>)", OF _ sorted_upt]) auto
qed

lemma argsort_pairs:
  assumes "argsort_ok f" and "length ss = length vs"
  shows "mset (map (\<lambda>i. (ss ! i, vs ! i)) (f ss)) = mset (zip ss vs)"
    and "sorted (map fst (map (\<lambda>i. (ss ! i, vs ! i)) (f ss)))"
proof -
  from assms(1) have perm: "mset (f ss) = mset [0..<length ss]"
    and srt: "sorted (map (\<lambda>i. ss ! i) (f ss))"
    by (simp_all add: argsort_ok_def)
  have "map (\<lambda>i. (ss ! i, vs ! i)) [0..<length ss] = zip ss vs"
    using assms(2) by (intro nth_equalityI) simp_all
  moreover have "mset (map (\<lambda>i. (ss ! i, vs ! i)) (f ss)) =
                 mset (map (\<lambda>i. (ss ! i, vs ! i)) [0..<length ss])"
    using perm by (simp only: mset_map)
  ultimately show "mset (map (\<lambda>i. (ss ! i, vs ! i)) (f ss)) = mset (zip ss vs)" by simp
  show "sorted (map fst (map (\<lambda>i. (ss ! i, vs ! i)) (f ss)))"
    using srt by (simp add: comp_def)
qed

lemma argsort_of_sorted:
  assumes "argsort_ok f" and "sorted xs" and "distinct xs"
  shows "f xs = [0..<length xs]"
proof -
  let ?n = "length xs"
  from assms(1) have perm: "mset (f xs) = mset [0..<?n]"
    and srt: "sorted (map (\<lambda>i. xs ! i) (f xs))"
    by (simp_all add: argsort_ok_def)
  from perm have elems: "set (f xs) = {0..<?n}" by (metis mset_eq_setD set_upt)
  have strict: "sorted_wrt (<) xs" using assms(2,3) by (simp add: strict_sorted_iff)
  have "sorted (f xs)"
    unfolding sorted_iff_nth_mono
  proof (intro allI impI)
    fix i j assume ij: "i \<le> j" "j < length (f xs)"
    then have a: "f xs ! i < ?n" and b: "f xs ! j < ?n"
      using elems by (metis atLeastLessThan_iff nth_mem order_le_less_trans)+
    have le: "xs ! (f xs ! i) \<le> xs ! (f xs ! j)"
      using sorted_nth_mono [OF srt, of i j] ij by simp
    show "f xs ! i \<le> f xs ! j"
    proof (rule ccontr)
      assume "\<not> f xs ! i \<le> f xs ! j"
      then have "f xs ! j < f xs ! i" by simp
      from sorted_wrt_nth_less [OF strict this a] le show False by simp
    qed
  qed
  with perm have "sort [0..<?n] = f xs" by (intro properties_for_sort) simp_all
  then show ?thesis by (simp add: sorted_sort_id)
qed

text \<open>
  C4. Whatever order \<^verbatim>\<open>argsort\<close> gives to equal steps, the repair of a history returns
  its (step, value) pairs sorted by step ascending, with every value replaced by the
  running maximum of the values in that sorted order; the repaired values never
  decrease. The raw history \<open>[(0, 5), (1, 3), (2, 7)]\<close> yields the values \<open>[5, 5, 7]\<close>.
\<close>

theorem sort_then_running_maximum:
  assumes "argsort_ok (argsort E)" and "length ss = length vs"
  shows "(\<exists>pairs. mset pairs = mset (zip ss vs) \<and> sorted (map fst pairs) \<and>
            normalize_run E (ss, vs) = (map fst pairs, running_maximum (map snd pairs))) \<and>
         sorted (snd (normalize_run E (ss, vs))) \<and>
         normalize_run E ([0, 1, 2], [5, 3, 7]) = ([0, 1, 2], [5, 5, 7])"
proof (intro conjI)
  let ?pairs = "map (\<lambda>i. (ss ! i, vs ! i)) (argsort E ss)"
  have norm: "normalize_run E (ss, vs) = (map fst ?pairs, running_maximum (map snd ?pairs))"
    by (simp add: normalize_run_def sort_by_step_def Let_def comp_def
        ensure_monotonic_running_maximum)
  show "\<exists>pairs. mset pairs = mset (zip ss vs) \<and> sorted (map fst pairs) \<and>
            normalize_run E (ss, vs) = (map fst pairs, running_maximum (map snd pairs))"
    using argsort_pairs [OF assms] norm by blast
  show "sorted (snd (normalize_run E (ss, vs)))"
    by (simp only: norm snd_conv sorted_running_maximum)
  have "argsort E [0, 1, 2] = [0..<length [0, 1, 2 :: int]]"
    by (rule argsort_of_sorted [OF assms(1)]) simp_all
  then have order: "argsort E [0, 1, 2] = [0, 1, 2]"
    by (simp add: upt_rec)
  show "normalize_run E ([0, 1, 2], [5, 3, 7]) = ([0, 1, 2], [5, 5, 7])"
    by (simp add: normalize_run_def sort_by_step_def order ensure_monotonic_def upt_rec)
qed

theorem sort_then_running_maximum_witness:
  "normalize_run default_env ([2, 0, 1], [7, 5, 3]) = ([0, 1, 2], [5, 5, 7]) \<and>
   sorted [5, 5, 7 :: real]"
proof -
  have h1: "argsort_ok (argsort default_env)"
    by (simp add: default_env_def stable_argsort_ok)
  have h2: "length [2, 0, 1 :: int] = length [7, 5, 3 :: real]" by simp
  have e: "normalize_run default_env ([2, 0, 1], [7, 5, 3]) = ([0, 1, 2], [5, 5, 7])"
    by (simp add: normalize_run_def sort_by_step_def default_env_def stable_argsort_def
        ensure_monotonic_def upt_rec)
  from sort_then_running_maximum [OF h1 h2] have
    "sorted (snd (normalize_run default_env ([2, 0, 1], [7, 5, 3])))" by blast
  then show ?thesis using e by simp
qed

section \<open>Reading the records of a history\<close>

lemmas open_race_defs =
  official_collect_open_race_histories_def collect_open_race_histories_def
  extract_histories_def collect_history_def read_record_def

text \<open>
  C5. The value of a record is \<^verbatim>\<open>best_value_so_far or current_best\<close>, and \<^verbatim>\<open>or\<close>
  tests the truth value, not \<^verbatim>\<open>None\<close>: a record with a step and the best value 0.0 is
  skipped when it has no \<^verbatim>\<open>current_best\<close>, and takes \<^verbatim>\<open>current_best\<close> when it has one.
  An optimizer whose only record has the best value 0.0 is missing from the result.
\<close>

theorem zero_best_value_skipped:
  "foldM (read_record E)
     [JObj [(''step'', JInt 1), (''best_value_so_far'', JFloat 0)]] ([], []) = Inr ([], []) \<and>
   foldM (read_record E)
     [JObj [(''step'', JInt 1), (''best_value_so_far'', JFloat 0), (''current_best'', JFloat 5)]]
     ([], []) = Inr ([1], [5]) \<and>
   collect_open_race_histories E zero_value_example = Inr [] \<and>
   official_collect_open_race_histories E zero_value_example = Inr []"
  by (simp add: open_race_defs zero_value_example_def aggregate_open_race_histories_def)

section \<open>Optimizers without a value\<close>

lemma part_of_refl: "part_of data data"
  by (simp add: part_of_def)

lemma part_of_singleton: "part_of x data \<Longrightarrow> part_of (JArr [x]) data"
  by (simp add: part_of_def)

lemma part_of_default: "part_of (JArr []) data" "part_of (JObj []) data" "part_of JNull data"
  by (simp_all add: part_of_def)

lemma part_of_member: "part_of (JArr xs) data \<Longrightarrow> x \<in> set xs \<Longrightarrow> part_of x data"
  by (auto simp: part_of_def)

lemma part_of_value: "part_of (JObj kvs) data \<Longrightarrow> map_of kvs k = Some v \<Longrightarrow> part_of v data"
  unfolding part_of_def
proof (intro allI impI)
  fix field opt
  assume all: "\<forall>field opt. reports field opt (JObj kvs) \<longrightarrow> reports field opt data"
    and v: "map_of kvs k = Some v" and r: "reports field opt v"
  from v have "(k, v) \<in> set kvs" by (rule map_of_SomeD)
  with r have "reports field opt (JObj kvs)" by force
  with all show "reports field opt data" by blast
qed

lemma part_of_get:
  assumes "py_get x k d = Inr y" and "part_of x data" and "part_of d data"
  shows "part_of y data"
  using assms by (cases x) (auto split: option.splits intro: part_of_value)

lemma part_of_subscript:
  assumes "py_subscript x k = Inr y" and "part_of x data"
  shows "part_of y data"
  using assms by (cases x) (auto split: option.splits intro: part_of_value)

lemma part_of_iter:
  assumes "py_iter x = Inr ys" and "part_of x data" and "y \<in> set ys"
  shows "part_of y data"
  using assms by (cases x) (auto simp: part_of_def)

lemma part_of_items:
  assumes "py_items x = Inr kvs" and "part_of x data" and "(opt, res) \<in> set kvs"
    and "\<not> reports field opt data"
  shows "\<not> field_set field res"
proof
  assume f: "field_set field res"
  from assms(1) have x: "x = JObj kvs" by (cases x) simp_all
  from f assms(3) have "reports field opt (JObj kvs)" by force
  with assms(2,4) show False by (simp add: x part_of_def)
qed

lemma field_set_get:
  assumes "py_get res field JNull = Inr v" and "v \<noteq> JNull"
  shows "field_set field res"
  using assms by (cases res) (auto split: option.splits)

lemma keys_append_default: "fst ` set (append_default name x d) = insert name (fst ` set d)"
  by (simp add: append_default_def dom_map_default)

lemma collect_results_absent:
  assumes "collect_results E field opt_res acc = Inr out" and "part_of opt_res data"
    and "\<not> reports field opt data" and "opt \<notin> fst ` set acc"
  shows "opt \<notin> fst ` set out"
proof -
  from assms(1) obtain items where items: "py_items opt_res = Inr items" and
    loop: "foldM (\<lambda>(name, res) acc.
           bnd (py_get res field JNull) (\<lambda>steps.
             if steps \<noteq> JNull
             then bnd (py_float E steps) (\<lambda>x. Inr (append_default name x acc))
             else Inr acc)) items acc = Inr out"
    by (auto simp: collect_results_def bnd_Inr_iff)
  show ?thesis
  proof (rule foldM_invariant [where P = "\<lambda>d. opt \<notin> fst ` set d", OF loop assms(4)])
    fix p a b
    assume p: "p \<in> set items" and a: "opt \<notin> fst ` set a"
      and step: "(case p of (name, res) \<Rightarrow> \<lambda>acc.
           bnd (py_get res field JNull) (\<lambda>steps.
             if steps \<noteq> JNull
             then bnd (py_float E steps) (\<lambda>x. Inr (append_default name x acc))
             else Inr acc)) a = Inr b"
    obtain name res where nr: "p = (name, res)" by (cases p)
    from step obtain steps where get: "py_get res field JNull = Inr steps"
      and rest: "(if steps \<noteq> JNull
             then bnd (py_float E steps) (\<lambda>x. Inr (append_default name x a))
             else Inr a) = Inr b"
      by (auto simp: nr bnd_Inr_iff)
    show "opt \<notin> fst ` set b"
    proof (cases "steps = JNull")
      case True
      with rest a show ?thesis by simp
    next
      case False
      from field_set_get [OF get False] have "field_set field res" .
      with part_of_items [OF items assms(2) _ assms(3)] p have "name \<noteq> opt"
        by (auto simp: nr)
      moreover from rest False obtain x where "b = append_default name x a"
        by (auto simp: bnd_Inr_iff)
      ultimately show ?thesis using a by (simp add: keys_append_default)
    qed
  qed
qed

lemma collect_competitions_absent:
  assumes "collect_competitions E competitions acc = Inr out" and "part_of competitions data"
    and "\<not> reports ''steps_to_target'' opt data" and "opt \<notin> fst ` set acc"
  shows "opt \<notin> fst ` set out"
proof -
  from assms(1) obtain comps where comps: "py_iter competitions = Inr comps" and
    loop: "foldM (\<lambda>comp acc.
           bnd (py_get comp ''optimizer_results'' (JObj [])) (\<lambda>opt_res.
             collect_results E ''steps_to_target'' opt_res acc)) comps acc = Inr out"
    by (auto simp: collect_competitions_def bnd_Inr_iff)
  show ?thesis
  proof (rule foldM_invariant [where P = "\<lambda>d. opt \<notin> fst ` set d", OF loop assms(4)])
    fix comp a b
    assume c: "comp \<in> set comps" and a: "opt \<notin> fst ` set a"
      and step: "bnd (py_get comp ''optimizer_results'' (JObj [])) (\<lambda>opt_res.
             collect_results E ''steps_to_target'' opt_res a) = Inr b"
    from step obtain opt_res where get: "py_get comp ''optimizer_results'' (JObj []) = Inr opt_res"
      and res: "collect_results E ''steps_to_target'' opt_res a = Inr b"
      by (auto simp: bnd_Inr_iff)
    have "part_of comp data" by (rule part_of_iter [OF comps assms(2) c])
    then have "part_of opt_res data" by (rule part_of_get [OF get _ part_of_default(2)])
    from collect_results_absent [OF res this assms(3) a] show "opt \<notin> fst ` set b" .
  qed
qed

lemma collect_tournaments_absent:
  assumes "collect_tournaments E tournaments acc = Inr out" and "part_of tournaments data"
    and "\<not> reports ''steps_to_target'' opt data" and "opt \<notin> fst ` set acc"
  shows "opt \<notin> fst ` set out"
proof -
  from assms(1) obtain ts where ts: "py_iter tournaments = Inr ts" and
    loop: "foldM (\<lambda>tournament acc.
           bnd (py_get tournament ''competitions'' (JArr [])) (\<lambda>competitions.
             collect_competitions E competitions acc)) ts acc = Inr out"
    by (auto simp: collect_tournaments_def bnd_Inr_iff)
  show ?thesis
  proof (rule foldM_invariant [where P = "\<lambda>d. opt \<notin> fst ` set d", OF loop assms(4)])
    fix t a b
    assume t: "t \<in> set ts" and a: "opt \<notin> fst ` set a"
      and step: "bnd (py_get t ''competitions'' (JArr [])) (\<lambda>competitions.
             collect_competitions E competitions a) = Inr b"
    from step obtain cs where get: "py_get t ''competitions'' (JArr []) = Inr cs"
      and res: "collect_competitions E cs a = Inr b"
      by (auto simp: bnd_Inr_iff)
    have "part_of t data" by (rule part_of_iter [OF ts assms(2) t])
    then have "part_of cs data" by (rule part_of_get [OF get _ part_of_default(1)])
    from collect_competitions_absent [OF res this assms(3) a] show "opt \<notin> fst ` set b" .
  qed
qed

lemma collect_analysis_items_absent:
  assumes "collect_analysis_items E items acc = Inr out" and "part_of items data"
    and "\<not> reports ''mean_steps'' opt data" and "opt \<notin> fst ` set acc"
  shows "opt \<notin> fst ` set out"
proof -
  from assms(1) obtain its where its: "py_iter items = Inr its" and
    loop: "foldM (\<lambda>item acc.
           bnd (py_get item ''data'' (JObj [])) (\<lambda>item_data.
             bnd (py_get item_data ''optimizer_stats'' (JObj [])) (\<lambda>optimizer_stats.
               collect_results E ''mean_steps'' optimizer_stats acc))) its acc = Inr out"
    by (auto simp: collect_analysis_items_def bnd_Inr_iff)
  show ?thesis
  proof (rule foldM_invariant [where P = "\<lambda>d. opt \<notin> fst ` set d", OF loop assms(4)])
    fix item a b
    assume i: "item \<in> set its" and a: "opt \<notin> fst ` set a"
      and step: "bnd (py_get item ''data'' (JObj [])) (\<lambda>item_data.
             bnd (py_get item_data ''optimizer_stats'' (JObj [])) (\<lambda>optimizer_stats.
               collect_results E ''mean_steps'' optimizer_stats a)) = Inr b"
    from step obtain item_data stats where get1: "py_get item ''data'' (JObj []) = Inr item_data"
      and get2: "py_get item_data ''optimizer_stats'' (JObj []) = Inr stats"
      and res: "collect_results E ''mean_steps'' stats a = Inr b"
      by (auto simp: bnd_Inr_iff)
    have "part_of item data" by (rule part_of_iter [OF its assms(2) i])
    then have "part_of item_data data" by (rule part_of_get [OF get1 _ part_of_default(2)])
    then have "part_of stats data" by (rule part_of_get [OF get2 _ part_of_default(2)])
    from collect_results_absent [OF res this assms(3) a] show "opt \<notin> fst ` set b" .
  qed
qed

lemma hide_label_branches_parts:
  assumes "hide_label_branches E data = Inr out"
    and empty: "P []"
    and tournaments: "\<And>x. collect_tournaments E x [] = Inr out \<Longrightarrow> part_of x data \<Longrightarrow> P out"
    and analysis: "\<And>x. collect_analysis_items E x [] = Inr out \<Longrightarrow> part_of x data \<Longrightarrow> P out"
  shows "P out"
  using assms(1) unfolding hide_label_branches_def Let_def
  apply (auto elim!: bnd_InrE split: if_splits)
  apply (rule empty
      | (rule tournaments analysis, assumption,
         (erule part_of_subscript part_of_get
          | rule part_of_refl part_of_singleton part_of_default)+))+
  done

lemma hide_label_branches_absent:
  assumes "hide_label_branches E data = Inr out"
    and "\<not> reports ''steps_to_target'' opt data" and "\<not> reports ''mean_steps'' opt data"
  shows "opt \<notin> fst ` set out"
proof (rule hide_label_branches_parts [OF assms(1)])
  show "opt \<notin> fst ` set []" by simp
next
  fix x assume "collect_tournaments E x [] = Inr out" and "part_of x data"
  from collect_tournaments_absent [OF this assms(2)] show "opt \<notin> fst ` set out" by simp
next
  fix x assume "collect_analysis_items E x [] = Inr out" and "part_of x data"
  from collect_analysis_items_absent [OF this assms(3)] show "opt \<notin> fst ` set out" by simp
qed

text \<open>
  C7. An optimizer for which the document reports no \<^verbatim>\<open>steps_to_target\<close> is not a key
  of what \<^verbatim>\<open>collect_hide_label_steps\<close> returns; if the document reports no
  \<^verbatim>\<open>mean_steps\<close> for it either (the field the analysis shape reads), it is not a key of
  what \<^verbatim>\<open>collect_hide_label_stats\<close> returns. Every summary that is returned has a count
  of at least 1.
\<close>

theorem no_value_no_summary:
  assumes "\<not> reports ''steps_to_target'' opt data"
  shows "(\<forall>out. collect_hide_label_steps E data = Inr out \<longrightarrow> opt \<notin> fst ` set out) \<and>
         (\<not> reports ''mean_steps'' opt data \<longrightarrow>
            (\<forall>out. collect_hide_label_stats E data = Inr out \<longrightarrow> opt \<notin> fst ` set out)) \<and>
         (\<forall>out name s. collect_hide_label_stats E data = Inr out \<and> map_of out name = Some s \<longrightarrow>
            0 < count s)"
proof (intro conjI allI impI)
  fix out
  assume "collect_hide_label_steps E data = Inr out"
  then obtain t where get: "py_get data ''all_tournament_results'' (JArr []) = Inr t"
    and loop: "collect_tournaments E (if \<not> truthy t then JArr [data] else t) [] = Inr out"
    by (auto simp: collect_hide_label_steps_def bnd_Inr_iff)
  have "part_of t data"
    by (rule part_of_get [OF get part_of_refl part_of_default(1)])
  then have "part_of (if \<not> truthy t then JArr [data] else t) data"
    by (simp add: part_of_singleton part_of_refl)
  from collect_tournaments_absent [OF loop this assms] show "opt \<notin> fst ` set out" by simp
next
  fix out
  assume mean: "\<not> reports ''mean_steps'' opt data"
    and "collect_hide_label_stats E data = Inr out"
  then obtain sbo where sbo: "hide_label_branches E data = Inr sbo"
    and out: "out = summarize sbo"
    by (auto simp: collect_hide_label_stats_def bnd_Inr_iff)
  have "opt \<notin> fst ` set sbo" by (rule hide_label_branches_absent [OF sbo assms mean])
  then have "map_of sbo opt = None" by (simp add: map_of_eq_None_iff)
  then have "map_of out opt = None"
    by (simp add: out map_of_summarize [OF hide_label_branches_distinct [OF sbo]])
  then show "opt \<notin> fst ` set out" by (simp add: map_of_eq_None_iff)
next
  fix out name s
  assume "collect_hide_label_stats E data = Inr out \<and> map_of out name = Some s"
  then obtain sbo where sbo: "hide_label_branches E data = Inr sbo"
    and s: "map_of (summarize sbo) name = Some s"
    by (auto simp: collect_hide_label_stats_def bnd_Inr_iff)
  from s obtain steps where "steps \<noteq> []" "s = summary_of steps"
    by (auto simp: map_of_summarize [OF hide_label_branches_distinct [OF sbo]]
        split: option.splits if_splits)
  then show "0 < count s" by (simp add: summary_of_def)
qed

theorem no_value_no_summary_witness:
  "collect_hide_label_stats default_env hide_label_example =
     Inr [(''A'', \<lparr>mean_steps = 9 / 2, median_steps = 9 / 2, min_steps = 3, max_steps = 6,
                    count = 2\<rparr>)] \<and>
   ''B'' \<notin> fst ` set [(''A'', \<lparr>mean_steps = 9 / 2, median_steps = 9 / 2, min_steps = 3,
                                 max_steps = 6, count = 2\<rparr>)] \<and>
   collect_hide_label_steps default_env hide_label_example = Inr [(''A'', [3, 6])] \<and>
   ''B'' \<notin> fst ` set [(''A'', [3, 6 :: real])]"
proof -
  have h: "\<not> reports ''steps_to_target'' ''B'' hide_label_example"
    by (simp add: hide_label_example_def)
  have m: "\<not> reports ''mean_steps'' ''B'' hide_label_example"
    by (simp add: hide_label_example_def)
  have e1: "collect_hide_label_stats default_env hide_label_example =
     Inr [(''A'', \<lparr>mean_steps = 9 / 2, median_steps = 9 / 2, min_steps = 3, max_steps = 6,
                    count = 2\<rparr>)]"
    by (simp add: hide_label_example_def hide_label_defs)
  have e2: "collect_hide_label_steps default_env hide_label_example = Inr [(''A'', [3, 6])]"
    by (simp add: hide_label_example_def hide_label_defs collect_hide_label_steps_def)
  from no_value_no_summary [OF h, of default_env] m e1 e2 show ?thesis by simp
qed

section \<open>From the extraction to the trajectory\<close>

lemma read_record_lengths:
  assumes "read_record E record hist = Inr hist'" and "length (fst hist) = length (snd hist)"
  shows "length (fst hist') = length (snd hist')"
  using assms unfolding read_record_def
  by (cases hist) (auto simp: bnd_Inr_iff split: if_splits)

lemma read_history_lengths:
  assumes "foldM (read_record E) records ([], []) = Inr hist"
  shows "length (fst hist) = length (snd hist)"
  by (rule foldM_invariant [where P = "\<lambda>h. length (fst h) = length (snd h)", OF assms])
     (auto dest: read_record_lengths)

lemma running_maximum_length: "length (running_maximum xs) = length xs"
  by (simp add: running_maximum_def)

lemma normalize_run_stored:
  assumes "argsort_ok (argsort E)" and "fst hist \<noteq> []" and "length (fst hist) = length (snd hist)"
  shows "stored_run (normalize_run E hist)"
proof -
  obtain ss vs where hist: "hist = (ss, vs)" by (cases hist)
  let ?order = "argsort E ss"
  from assms(1) have perm: "mset ?order = mset [0..<length ss]"
    and srt: "sorted (map (\<lambda>i. ss ! i) ?order)"
    by (simp_all add: argsort_ok_def)
  from perm have "size (mset ?order) = size (mset [0..<length ss])" by simp
  then have len: "length ?order = length ss" by simp
  then have ne: "?order \<noteq> []" using assms(2) by (auto simp: hist)
  have norm: "normalize_run E hist =
      (map (\<lambda>i. ss ! i) ?order, running_maximum (map (\<lambda>i. vs ! i) ?order))"
    by (simp add: hist normalize_run_def sort_by_step_def Let_def
        ensure_monotonic_running_maximum)
  show ?thesis
    using ne srt by (simp add: norm stored_run_def running_maximum_length sorted_running_maximum)
qed

lemma set_append_default:
  "p \<in> set (append_default name x d) \<Longrightarrow>
   p \<in> set d \<or> p = (name, [x]) \<or> (\<exists>xs. (name, xs) \<in> set d \<and> p = (name, xs @ [x]))"
  unfolding append_default_def
  by (induction d) (auto split: if_splits)






section \<open>Documents on which the functions return\<close>

lemma returns_iff: "returns m \<longleftrightarrow> (\<exists>x. m = Inr x)"
  by (cases m) simp_all

lemma returns_bnd:
  assumes "returns m" and "\<And>x. m = Inr x \<Longrightarrow> returns (f x)"
  shows "returns (bnd m f)"
  using assms by (cases m) simp_all

lemma foldM_returns:
  assumes "P s" and "\<And>x a. x \<in> set xs \<Longrightarrow> P a \<Longrightarrow> \<exists>b. f x a = Inr b \<and> P b"
  shows "\<exists>s'. foldM f xs s = Inr s' \<and> P s'"
  using assms
proof (induction xs arbitrary: s)
  case Nil
  then show ?case by simp
next
  case (Cons x xs)
  from Cons.prems(2) [of x s] Cons.prems(1) obtain b where b: "f x s = Inr b" "P b" by auto
  have "\<exists>s'. foldM f xs b = Inr s' \<and> P s'"
  proof (rule Cons.IH [OF b(2)])
    fix y a assume "y \<in> set xs" "P a"
    then show "\<exists>b. f y a = Inr b \<and> P b" using Cons.prems(2) [of y a] by simp
  qed
  then show ?case by (simp add: b(1))
qed

lemma foldM_returns_always:
  assumes "\<And>x a. x \<in> set xs \<Longrightarrow> returns (f x a)"
  shows "returns (foldM f xs s)"
proof -
  have "\<exists>s'. foldM f xs s = Inr s' \<and> True"
    by (rule foldM_returns [where P = "\<lambda>_. True"]) (use assms in \<open>auto simp: returns_iff\<close>)
  then show ?thesis by (auto simp: returns_iff)
qed

lemma collect_results_returns:
  assumes "results_object (steps_record E field) opt_res"
  shows "returns (collect_results E field opt_res acc)"
proof -
  from assms obtain kvs where kvs: "opt_res = JObj kvs"
    and each: "\<forall>kv\<in>set kvs. steps_record E field (snd kv)"
    by (cases opt_res) auto
  have "returns (foldM (\<lambda>(name, res) acc.
           bnd (py_get res field JNull) (\<lambda>steps.
             if steps \<noteq> JNull
             then bnd (py_float E steps) (\<lambda>x. Inr (append_default name x acc))
             else Inr acc)) kvs acc)"
  proof (rule foldM_returns_always)
    fix p a assume "p \<in> set kvs"
    with each have rec: "steps_record E field (snd p)" by simp
    then obtain rkvs where r: "snd p = JObj rkvs" by (cases "snd p") auto
    show "returns ((case p of (name, res) \<Rightarrow> \<lambda>acc.
           bnd (py_get res field JNull) (\<lambda>steps.
             if steps \<noteq> JNull
             then bnd (py_float E steps) (\<lambda>x. Inr (append_default name x acc))
             else Inr acc)) a)"
      using rec r
      by (cases p)
         (auto simp: optional_def number_or_null_def returns_iff split: option.splits)
  qed
  then show ?thesis by (simp add: collect_results_def kvs)
qed

lemma collect_competitions_returns:
  assumes "array_of (competition_object (steps_record E ''steps_to_target'')) competitions"
  shows "returns (collect_competitions E competitions acc)"
proof -
  from assms obtain xs where xs: "competitions = JArr xs"
    and each: "\<forall>c\<in>set xs. competition_object (steps_record E ''steps_to_target'') c"
    by (cases competitions) auto
  have "returns (foldM (\<lambda>comp acc.
           bnd (py_get comp ''optimizer_results'' (JObj [])) (\<lambda>opt_res.
             collect_results E ''steps_to_target'' opt_res acc)) xs acc)"
  proof (rule foldM_returns_always)
    fix c a assume "c \<in> set xs"
    with each have c: "competition_object (steps_record E ''steps_to_target'') c" by simp
    then obtain kvs where k: "c = JObj kvs" by (cases c) auto
    show "returns (bnd (py_get c ''optimizer_results'' (JObj [])) (\<lambda>opt_res.
             collect_results E ''steps_to_target'' opt_res a))"
      using c by (auto simp: k optional_def split: option.splits intro: collect_results_returns)
  qed
  then show ?thesis by (simp add: collect_competitions_def xs)
qed

lemma collect_tournaments_returns:
  assumes "array_of (tournament_object (steps_record E ''steps_to_target'')) tournaments"
  shows "returns (collect_tournaments E tournaments acc)"
proof -
  from assms obtain xs where xs: "tournaments = JArr xs"
    and each: "\<forall>t\<in>set xs. tournament_object (steps_record E ''steps_to_target'') t"
    by (cases tournaments) auto
  have "returns (foldM (\<lambda>tournament acc.
           bnd (py_get tournament ''competitions'' (JArr [])) (\<lambda>competitions.
             collect_competitions E competitions acc)) xs acc)"
  proof (rule foldM_returns_always)
    fix t a assume "t \<in> set xs"
    with each have t: "tournament_object (steps_record E ''steps_to_target'') t" by simp
    then obtain kvs where k: "t = JObj kvs" by (cases t) auto
    show "returns (bnd (py_get t ''competitions'' (JArr [])) (\<lambda>competitions.
             collect_competitions E competitions a))"
      using t by (auto simp: k optional_def split: option.splits intro: collect_competitions_returns)
  qed
  then show ?thesis by (simp add: collect_tournaments_def xs)
qed

lemma collect_analysis_items_returns:
  assumes "array_of (analysis_item E) items"
  shows "returns (collect_analysis_items E items acc)"
proof -
  from assms obtain xs where xs: "items = JArr xs"
    and each: "\<forall>i\<in>set xs. analysis_item E i"
    by (cases items) auto
  have "returns (foldM (\<lambda>item acc.
           bnd (py_get item ''data'' (JObj [])) (\<lambda>item_data.
             bnd (py_get item_data ''optimizer_stats'' (JObj [])) (\<lambda>optimizer_stats.
               collect_results E ''mean_steps'' optimizer_stats acc))) xs acc)"
  proof (rule foldM_returns_always)
    fix i a assume "i \<in> set xs"
    with each have i: "analysis_item E i" by simp
    then obtain kvs where k: "i = JObj kvs" by (cases i) auto
    show "returns (bnd (py_get i ''data'' (JObj [])) (\<lambda>item_data.
             bnd (py_get item_data ''optimizer_stats'' (JObj [])) (\<lambda>optimizer_stats.
               collect_results E ''mean_steps'' optimizer_stats a)))"
    proof (cases "map_of kvs ''data''")
      case None
      then show ?thesis by (auto simp: k intro: collect_results_returns)
    next
      case (Some d)
      with i have d: "item_data E d" by (simp add: k optional_def)
      then obtain dkvs where dk: "d = JObj dkvs" by (cases d) auto
      show ?thesis
        using d by (auto simp: k Some dk optional_def split: option.splits
            intro: collect_results_returns)
    qed
  qed
  then show ?thesis by (simp add: collect_analysis_items_def xs)
qed

lemma singleton_tournament:
  "tournament_object P t \<Longrightarrow> array_of (tournament_object P) (JArr [t])"
  by simp

lemma hide_label_branches_returns:
  assumes "hide_label_document E data"
  shows "returns (hide_label_branches E data)"
proof -
  let ?P = "steps_record E ''steps_to_target''"
  from assms obtain kvs where data: "data = JObj kvs" by (cases data) auto
  from assms have self: "tournament_object ?P (JObj kvs)"
    and items: "optional (array_of (analysis_item E)) (map_of kvs ''items'')"
    and flat: "optional (array_of (tournament_object ?P)) (map_of kvs ''all_tournament_results'')"
    and results: "optional (hide_label_results E) (map_of kvs ''results'')"
    and plain: "optional (\<lambda>v. \<not> truthy v \<or> array_of (tournament_object ?P) v \<or>
                    tournament_object ?P v) (map_of kvs ''tournament_results'')"
    by (simp_all add: data)
  have fallback: "returns (collect_tournaments E (JArr [JObj kvs]) [])"
    by (rule collect_tournaments_returns [OF singleton_tournament [OF self]])
  have standard: "returns (bnd (py_get (JObj kvs) ''tournament_results'' (JArr [])) (\<lambda>tournaments.
                       let tournaments1 = (if \<not> truthy tournaments then JArr [JObj kvs] else tournaments);
                           tournaments2 = (if \<not> is_list tournaments1 then JArr [tournaments1]
                                           else tournaments1)
                       in collect_tournaments E tournaments2 []))"
  proof (cases "map_of kvs ''tournament_results''")
    case None
    then show ?thesis using fallback by simp
  next
    case (Some v)
    with plain have v: "\<not> truthy v \<or> array_of (tournament_object ?P) v \<or> tournament_object ?P v"
      by (simp add: optional_def)
    show ?thesis
    proof (cases "truthy v")
      case False
      then show ?thesis using fallback by (simp add: Some)
    next
      case True
      with v consider "array_of (tournament_object ?P) v" | "tournament_object ?P v" by blast
      then show ?thesis
      proof cases
        case 1
        then have "is_list v" by (cases v) auto
        with 1 True show ?thesis by (simp add: Some collect_tournaments_returns)
      next
        case 2
        then have "\<not> is_list v" by (cases v) auto
        with 2 True show ?thesis
          by (simp add: Some collect_tournaments_returns [OF singleton_tournament])
      qed
    qed
  qed
  have analysis: "returns (collect_analysis_items E its [])" if "map_of kvs ''items'' = Some its" for its
    using items that by (simp add: optional_def collect_analysis_items_returns)
  have flat': "returns (collect_tournaments E ts [])"
    if "map_of kvs ''all_tournament_results'' = Some ts" for ts
    using flat that by (simp add: optional_def collect_tournaments_returns)
  have keys: "\<And>k. (k \<in> fst ` set kvs) = (map_of kvs k \<noteq> None)"
    by (simp add: map_of_eq_None_iff)
  show ?thesis
  proof (cases "map_of kvs ''results''")
    case None
    then show ?thesis
      using standard analysis flat'
      unfolding hide_label_branches_def data
      by (auto simp: keys split: option.splits)
  next
    case (Some r)
    with results have r: "hide_label_results E r" by (simp add: optional_def)
    then obtain rkvs where rk: "r = JObj rkvs" by (cases r) auto
    from r have inner_all: "returns (collect_tournaments E ts [])"
      if "map_of rkvs ''all_tournament_results'' = Some ts" for ts
      using that by (simp add: rk optional_def collect_tournaments_returns)
    from r have inner: "returns (collect_tournaments E ts [])"
      if "map_of rkvs ''tournament_results'' = Some ts" and "is_list ts" for ts
      using that by (simp add: rk optional_def collect_tournaments_returns)
    have rkeys: "\<And>k. (k \<in> fst ` set rkvs) = (map_of rkvs k \<noteq> None)"
      by (simp add: map_of_eq_None_iff)
    show ?thesis
      using standard analysis flat' inner_all inner
      unfolding hide_label_branches_def data
      by (auto simp: keys rkeys Some rk split: option.splits)
  qed
qed

lemma collect_hide_label_stats_returns:
  "hide_label_document E data \<Longrightarrow> returns (collect_hide_label_stats E data)"
  using hide_label_branches_returns [of E data]
  by (auto simp: collect_hide_label_stats_def returns_iff)

lemma collect_hide_label_steps_returns:
  assumes "hide_label_document E data"
  shows "returns (collect_hide_label_steps E data)"
proof -
  let ?P = "steps_record E ''steps_to_target''"
  from assms obtain kvs where data: "data = JObj kvs" by (cases data) auto
  from assms have self: "tournament_object ?P (JObj kvs)"
    and flat: "optional (array_of (tournament_object ?P)) (map_of kvs ''all_tournament_results'')"
    by (simp_all add: data)
  have fallback: "returns (collect_tournaments E (JArr [JObj kvs]) [])"
    by (rule collect_tournaments_returns [OF singleton_tournament [OF self]])
  show ?thesis
    using fallback flat
    by (auto simp: collect_hide_label_steps_def data optional_def collect_tournaments_returns
        split: option.splits)
qed

lemma read_record_returns:
  assumes "history_record E record" and "\<forall>s\<in>set (fst hist). 0 \<le> s"
  shows "\<exists>hist'. read_record E record hist = Inr hist' \<and> (\<forall>s\<in>set (fst hist'). 0 \<le> s)"
proof -
  obtain ss vs where hist: "hist = (ss, vs)" by (cases hist)
  from assms(1) obtain kvs where r: "record = JObj kvs" by (cases "record") auto
  from assms(1) have step: "optional (step_or_null E) (map_of kvs ''step'')"
    and so_far: "optional (number_or_null E) (map_of kvs ''best_value_so_far'')"
    and current: "optional (number_or_null E) (map_of kvs ''current_best'')"
    by (simp_all add: r)
  define step_v where "step_v = (case map_of kvs ''step'' of None \<Rightarrow> JNull | Some v \<Rightarrow> v)"
  define so_far_v where
    "so_far_v = (case map_of kvs ''best_value_so_far'' of None \<Rightarrow> JNull | Some v \<Rightarrow> v)"
  define current_v where
    "current_v = (case map_of kvs ''current_best'' of None \<Rightarrow> JNull | Some v \<Rightarrow> v)"
  define best_v where "best_v = (if truthy so_far_v then so_far_v else current_v)"
  have s: "step_v = JNull \<or> (\<exists>i. py_int E step_v = Inr i \<and> 0 \<le> i)"
    using step
    by (auto simp: step_v_def optional_def step_or_null_def split: option.splits sum.splits)
  have "so_far_v = JNull \<or> returns (py_float E so_far_v)"
    "current_v = JNull \<or> returns (py_float E current_v)"
    using so_far current
    by (auto simp: so_far_v_def current_v_def optional_def number_or_null_def split: option.splits)
  then have b: "best_v = JNull \<or> (\<exists>x. py_float E best_v = Inr x)"
    by (auto simp: best_v_def returns_iff)
  have gets: "py_get record ''step'' JNull = Inr step_v"
    "py_get record ''best_value_so_far'' JNull = Inr so_far_v"
    "py_get record ''current_best'' JNull = Inr current_v"
    by (simp_all add: r step_v_def so_far_v_def current_v_def)
  have best: "(if truthy so_far_v then Inr so_far_v else Inr current_v) =
      (Inr best_v :: py_error + json)"
    by (simp add: best_v_def)
  have unfold: "read_record E record hist =
      (if step_v \<noteq> JNull \<and> best_v \<noteq> JNull
       then bnd (py_int E step_v) (\<lambda>i. bnd (py_float E best_v) (\<lambda>x. Inr (ss @ [i], vs @ [x])))
       else Inr (ss, vs))"
    unfolding read_record_def hist prod.case gets bnd_Inr best by (rule refl)
  show ?thesis
  proof (cases "step_v \<noteq> JNull \<and> best_v \<noteq> JNull")
    case True
    with s b obtain i x where "py_int E step_v = Inr i" "0 \<le> i" "py_float E best_v = Inr x"
      by blast
    then show ?thesis using True assms(2) by (simp only: unfold) (simp add: hist)
  next
    case False
    then show ?thesis using assms(2) by (simp only: unfold) (auto simp: hist)
  qed
qed

lemma argsort_indices:
  assumes "argsort_ok f"
  shows "set (f xs) = {0..<length xs}"
proof -
  from assms have "mset (f xs) = mset [0..<length xs]" by (simp add: argsort_ok_def)
  then show ?thesis by (metis mset_eq_setD set_upt)
qed

lemma normalize_run_ok:
  assumes "argsort_ok (argsort E)" and "fst hist \<noteq> []" and "length (fst hist) = length (snd hist)"
    and "\<forall>s\<in>set (fst hist). 0 \<le> s"
  shows "run_ok (normalize_run E hist)"
proof -
  obtain ss vs where hist: "hist = (ss, vs)" by (cases hist)
  from normalize_run_stored [OF assms(1,2,3)] have st: "stored_run (normalize_run E hist)" .
  have fst_eq: "fst (normalize_run E hist) = map (\<lambda>i. ss ! i) (argsort E ss)"
    by (simp add: hist normalize_run_def sort_by_step_def Let_def)
  have "\<forall>s\<in>set (map (\<lambda>i. ss ! i) (argsort E ss)). 0 \<le> s"
    using assms(4) argsort_indices [OF assms(1), of ss] by (auto simp: hist)
  then have "\<forall>s\<in>set (fst (normalize_run E hist)). 0 \<le> s"
    by (simp only: fst_eq)
  with st show ?thesis
    by (cases "normalize_run E hist") (auto simp: run_ok_def stored_run_def)
qed

lemma runs_ok_append:
  assumes "runs_ok d" and "run_ok r"
  shows "runs_ok (append_default name r d)"
  unfolding runs_ok_def
proof (intro ballI)
  fix p q assume "p \<in> set (append_default name r d)" and q: "q \<in> set (snd p)"
  from set_append_default [OF this(1)] q assms
  show "run_ok q" by (fastforce simp: runs_ok_def)
qed

lemma collect_history_returns:
  assumes ok: "argsort_ok (argsort E)" and "history_result E result" and "runs_ok acc"
  shows "\<exists>out. collect_history E name result acc = Inr out \<and> runs_ok out"
proof -
  from assms(2) obtain kvs where r: "result = JObj kvs" by (cases result) auto
  define history where "history = (case map_of kvs ''optimization_history'' of
      None \<Rightarrow> JArr [] | Some v \<Rightarrow> v)"
  from assms(2) have "array_of (history_record E) history"
    by (auto simp: r history_def optional_def split: option.splits)
  then obtain records where h: "history = JArr records"
    and each: "\<forall>x\<in>set records. history_record E x"
    by (cases history) auto
  have "\<exists>hist. foldM (read_record E) records ([], []) = Inr hist \<and> (\<forall>s\<in>set (fst hist). 0 \<le> s)"
    by (rule foldM_returns [where P = "\<lambda>h. \<forall>s\<in>set (fst h). 0 \<le> s"])
       (use each read_record_returns in auto)
  then obtain hist where read: "foldM (read_record E) records ([], []) = Inr hist"
    and nonneg: "\<forall>s\<in>set (fst hist). 0 \<le> s"
    by blast
  from read_history_lengths [OF read] have len: "length (fst hist) = length (snd hist)" .
  have unfold: "collect_history E name result acc =
      (if fst hist \<noteq> [] then Inr (append_default name (normalize_run E hist) acc) else Inr acc)"
    using h read by (simp add: collect_history_def r history_def)
  show ?thesis
  proof (cases "fst hist = []")
    case True
    then show ?thesis using assms(3) by (simp add: unfold)
  next
    case False
    from normalize_run_ok [OF ok False len nonneg] assms(3)
    have "runs_ok (append_default name (normalize_run E hist) acc)" by (intro runs_ok_append)
    then show ?thesis using False by (simp add: unfold)
  qed
qed

lemma extract_histories_returns:
  assumes ok: "argsort_ok (argsort E)"
    and "array_of (competition_object (history_result E)) competitions" and "runs_ok acc"
  shows "\<exists>out. extract_histories E competitions acc = Inr out \<and> runs_ok out"
proof -
  from assms(2) obtain xs where xs: "competitions = JArr xs"
    and each: "\<forall>c\<in>set xs. competition_object (history_result E) c"
    by (cases competitions) auto
  have "\<exists>out. foldM (\<lambda>competition acc.
           bnd (py_get competition ''optimizer_results'' (JObj [])) (\<lambda>optimizer_results.
           bnd (py_items optimizer_results) (\<lambda>items.
             foldM (\<lambda>(name, result). collect_history E name result) items acc)))
         xs acc = Inr out \<and> runs_ok out"
  proof (rule foldM_returns [where P = runs_ok, OF assms(3)])
    fix c a assume c: "c \<in> set xs" and a: "runs_ok a"
    from each c have co: "competition_object (history_result E) c" by simp
    then obtain kvs where k: "c = JObj kvs" by (cases c) auto
    define res where "res = (case map_of kvs ''optimizer_results'' of
        None \<Rightarrow> JObj [] | Some v \<Rightarrow> v)"
    from co have "results_object (history_result E) res"
      by (auto simp: k res_def optional_def split: option.splits)
    then obtain items where i: "res = JObj items"
      and trials: "\<forall>kv\<in>set items. history_result E (snd kv)"
      by (cases res) auto
    have "\<exists>b. foldM (\<lambda>(name, result). collect_history E name result) items a = Inr b \<and> runs_ok b"
    proof (rule foldM_returns [where P = runs_ok, OF a])
      fix p d assume "p \<in> set items" and d: "runs_ok d"
      with trials have "history_result E (snd p)" by simp
      from collect_history_returns [OF ok this d, of "fst p"]
      show "\<exists>b. (case p of (name, result) \<Rightarrow> collect_history E name result) d = Inr b \<and> runs_ok b"
        by (cases p) simp
    qed
    moreover have "py_get c ''optimizer_results'' (JObj []) = Inr res"
      by (simp add: k res_def)
    ultimately show "\<exists>b. bnd (py_get c ''optimizer_results'' (JObj [])) (\<lambda>optimizer_results.
           bnd (py_items optimizer_results) (\<lambda>items.
             foldM (\<lambda>(name, result). collect_history E name result) items a)) = Inr b \<and> runs_ok b"
      by (simp add: i)
  qed
  then show ?thesis by (simp add: extract_histories_def xs)
qed

lemma aggregate_returns:
  "runs_ok hists \<Longrightarrow> returns (aggregate_open_race_histories hists)"
  using aggregate_open_race_histories_eq [of hists] by (simp add: runs_ok_def)

lemma runs_ok_empty: "runs_ok []"
  by (simp add: runs_ok_def)

lemma extracted_or_empty:
  assumes "argsort_ok (argsort E)" and "array_of (competition_object (history_result E)) c"
  shows "\<exists>out. (if \<not> truthy c then Inr [] else extract_histories E c []) = Inr out \<and> runs_ok out"
  using extract_histories_returns [OF assms runs_ok_empty] by (auto simp: runs_ok_empty)

lemma tournament_competitions:
  assumes "tournament_object P (JObj kvs)"
  shows "array_of (competition_object P)
           (case map_of kvs ''competitions'' of None \<Rightarrow> JArr [] | Some v \<Rightarrow> v)"
  using assms by (auto simp: optional_def split: option.splits)

lemma collect_open_race_histories_returns:
  assumes ok: "argsort_ok (argsort E)" and "open_race_document E data"
  shows "\<exists>extracted. collect_open_race_histories E data = Inr extracted \<and> runs_ok extracted"
proof -
  let ?P = "history_result E"
  from assms(2) obtain kvs where data: "data = JObj kvs" by (cases data) auto
  from assms(2) have self: "tournament_object ?P (JObj kvs)"
    and wrapped: "optional (tournament_object ?P) (map_of kvs ''tournament_results'')"
    by (simp_all add: data)
  show ?thesis
  proof (cases "map_of kvs ''competitions''")
    case (Some cs)
    with self have cs: "array_of (competition_object ?P) cs" by (simp add: optional_def)
    then have "is_list cs" by (cases cs) auto
    then show ?thesis
      using extracted_or_empty [OF ok cs]
      by (simp add: collect_open_race_histories_def data Some)
  next
    case None
    show ?thesis
    proof (cases "map_of kvs ''tournament_results''")
      case no: None
      show ?thesis
        by (simp add: collect_open_race_histories_def data None no runs_ok_empty)
    next
      case (Some tr)
      with wrapped have tr: "tournament_object ?P tr" by (simp add: optional_def)
      then obtain tkvs where t: "tr = JObj tkvs" by (cases tr) auto
      from extracted_or_empty [OF ok tournament_competitions [OF tr [unfolded t]]]
      show ?thesis
        by (simp add: collect_open_race_histories_def data None Some t)
    qed
  qed
qed

lemma official_collect_open_race_histories_returns:
  assumes ok: "argsort_ok (argsort E)" and "open_race_document E data"
  shows "returns (official_collect_open_race_histories E data)"
proof -
  let ?P = "history_result E"
  from assms(2) obtain kvs where data: "data = JObj kvs" by (cases data) auto
  from assms(2) have self: "tournament_object ?P (JObj kvs)"
    and wrapped: "optional (tournament_object ?P) (map_of kvs ''tournament_results'')"
    and results: "optional (tournament_object ?P) (map_of kvs ''results'')"
    by (simp_all add: data)
  have finish: "returns (if \<not> truthy c then Inr []
       else bnd (extract_histories E c []) aggregate_open_race_histories)"
    if "array_of (competition_object ?P) c" for c
  proof -
    from extracted_or_empty [OF ok that] obtain out where
      out: "(if \<not> truthy c then Inr [] else extract_histories E c []) = Inr out" "runs_ok out"
      by blast
    show ?thesis
    proof (cases "truthy c")
      case True
      with out aggregate_returns [OF out(2)] show ?thesis by simp
    next
      case False
      then show ?thesis by simp
    qed
  qed
  have keys: "\<And>k. (k \<in> fst ` set kvs) = (map_of kvs k \<noteq> None)"
    by (simp add: map_of_eq_None_iff)
  have plain: "returns (bnd (bnd (py_get (JObj kvs) ''competitions'' JNull) (\<lambda>direct.
                 if is_list direct then Inr (JObj kvs)
                 else py_get (JObj kvs) ''tournament_results'' (JObj [])))
       (\<lambda>tournament_results.
     bnd (py_get tournament_results ''competitions'' (JArr [])) (\<lambda>competitions.
       if \<not> truthy competitions then Inr []
       else bnd (extract_histories E competitions []) aggregate_open_race_histories)))"
  proof (cases "map_of kvs ''competitions''")
    case (Some cs)
    with self have cs: "array_of (competition_object ?P) cs" by (simp add: optional_def)
    then have "is_list cs" by (cases cs) auto
    then show ?thesis using finish [OF cs] by (simp add: Some)
  next
    case None
    show ?thesis
    proof (cases "map_of kvs ''tournament_results''")
      case no: None
      show ?thesis by (simp add: None no)
    next
      case (Some tr)
      with wrapped have tr: "tournament_object ?P tr" by (simp add: optional_def)
      then obtain tkvs where t: "tr = JObj tkvs" by (cases tr) auto
      from finish [OF tournament_competitions [OF tr [unfolded t]]]
      show ?thesis by (simp add: None Some t)
    qed
  qed
  show ?thesis
  proof (cases "map_of kvs ''results''")
    case None
    then show ?thesis
      using plain by (simp add: official_collect_open_race_histories_def data keys)
  next
    case (Some r)
    with results have r: "tournament_object ?P r" by (simp add: optional_def)
    then obtain rkvs where rk: "r = JObj rkvs" by (cases r) auto
    have rkeys: "\<And>k. (k \<in> fst ` set rkvs) = (map_of rkvs k \<noteq> None)"
      by (simp add: map_of_eq_None_iff)
    show ?thesis
    proof (cases "map_of rkvs ''competitions''")
      case None
      then show ?thesis
        using plain by (simp add: official_collect_open_race_histories_def data keys Some rk rkeys)
    next
      case inner: (Some cs)
      from tournament_competitions [OF r [unfolded rk]] have "array_of (competition_object ?P) cs"
        by (simp add: inner)
      from finish [OF this]
      show ?thesis
        by (simp add: official_collect_open_race_histories_def data keys Some rk rkeys inner)
    qed
  qed
qed

lemma open_race_returns:
  assumes "argsort_ok (argsort E)" and "open_race_document E data"
  shows "returns (official_collect_open_race_histories E data) \<and>
         returns (bnd (collect_open_race_histories E data) aggregate_open_race_histories)"
proof
  show "returns (official_collect_open_race_histories E data)"
    by (rule official_collect_open_race_histories_returns [OF assms])
  from collect_open_race_histories_returns [OF assms] obtain extracted where
    ex: "collect_open_race_histories E data = Inr extracted" and rk: "runs_ok extracted"
    by blast
  from aggregate_returns [OF rk]
  show "returns (bnd (collect_open_race_histories E data) aggregate_open_race_histories)"
    by (simp add: ex)
qed

section \<open>From the document to the trajectory\<close>

lemma bnd_assoc: "bnd (bnd m f) g = bnd m (\<lambda>x. bnd (f x) g)"
  by (cases m) simp_all

lemma collect_open_race_histories_find:
  "collect_open_race_histories E data =
     bnd (find_competitions data) (\<lambda>c.
       if \<not> truthy c then Inr [] else extract_histories E c [])"
  by (simp add: collect_open_race_histories_def find_competitions_def bnd_assoc)

lemma official_collect_open_race_histories_find:
  "official_collect_open_race_histories E data =
     bnd (official_find_competitions data) (\<lambda>c.
       if \<not> truthy c then Inr []
       else bnd (extract_histories E c []) aggregate_open_race_histories)"
  by (simp add: official_collect_open_race_histories_def official_find_competitions_def bnd_assoc)




















section \<open>Documents of other shapes\<close>

lemma nothing_reported_empty:
  assumes "\<forall>opt. \<not> reports ''steps_to_target'' opt data \<and> \<not> reports ''mean_steps'' opt data"
  shows "(collect_hide_label_stats E data = Inr out \<longrightarrow> out = []) \<and>
         (collect_hide_label_steps E data = Inr out' \<longrightarrow> out' = [])"
proof (intro conjI impI)
  assume "collect_hide_label_stats E data = Inr out"
  then obtain sbo where sbo: "hide_label_branches E data = Inr sbo"
    and out: "out = summarize sbo"
    by (auto simp: collect_hide_label_stats_def bnd_Inr_iff)
  have "opt \<notin> fst ` set sbo" for opt
    by (rule hide_label_branches_absent [OF sbo]) (simp_all add: assms)
  then have "sbo = []" by (cases sbo) force+
  then show "out = []" by (simp add: out summarize_def)
next
  assume "collect_hide_label_steps E data = Inr out'"
  then obtain t where get: "py_get data ''all_tournament_results'' (JArr []) = Inr t"
    and loop: "collect_tournaments E (if \<not> truthy t then JArr [data] else t) [] = Inr out'"
    by (auto simp: collect_hide_label_steps_def bnd_Inr_iff)
  have "part_of t data"
    by (rule part_of_get [OF get part_of_refl part_of_default(1)])
  then have part: "part_of (if \<not> truthy t then JArr [data] else t) data"
    by (simp add: part_of_singleton part_of_refl)
  have "opt \<notin> fst ` set out'" for opt
    using collect_tournaments_absent [OF loop part, of opt] assms by simp
  then show "out' = []" by (cases out') force+
qed

lemma no_recognized_key_empty:
  assumes "''items'' \<notin> fst ` set kvs" and "''all_tournament_results'' \<notin> fst ` set kvs"
    and "''results'' \<notin> fst ` set kvs" and "''tournament_results'' \<notin> fst ` set kvs"
    and "''competitions'' \<notin> fst ` set kvs"
  shows "collect_hide_label_stats E (JObj kvs) = Inr [] \<and>
         collect_hide_label_steps E (JObj kvs) = Inr [] \<and>
         collect_open_race_histories E (JObj kvs) = Inr [] \<and>
         official_collect_open_race_histories E (JObj kvs) = Inr []"
proof -
  have none: "map_of kvs ''all_tournament_results'' = None" "map_of kvs ''results'' = None"
    "map_of kvs ''tournament_results'' = None" "map_of kvs ''competitions'' = None"
    using assms by (simp_all add: map_of_eq_None_iff)
  show ?thesis
    using assms none
    by (simp add: hide_label_defs collect_hide_label_steps_def open_race_defs)
qed

text \<open>
  C8, as stated, fails: a document whose \<^verbatim>\<open>competitions\<close> is \<^verbatim>\<open>null\<close> raises
  \<^verbatim>\<open>TypeError\<close> in \<^verbatim>\<open>collect_hide_label_stats\<close>.
\<close>

theorem null_competitions_counterexample:
  "collect_hide_label_stats default_env (JObj [(''competitions'', JNull)]) = Inl TypeError"
  by (simp add: hide_label_defs)

text \<open>
  C8, amended. On a document in which every field that the functions read has the type
  they read it as (\<open>hide_label_document\<close>, \<open>open_race_document\<close>), the four functions
  and the aggregation return. The result is the empty mapping when such a Hide-the-Label
  document reports no \<^verbatim>\<open>steps_to_target\<close> and no \<^verbatim>\<open>mean_steps\<close> for any optimizer,
  when the list of competitions that an Open Race function finds is missing or empty, and
  when the document is a dict with none of the keys \<^verbatim>\<open>items\<close>,
  \<^verbatim>\<open>all_tournament_results\<close>, \<^verbatim>\<open>results\<close>, \<^verbatim>\<open>tournament_results\<close> and
  \<^verbatim>\<open>competitions\<close>.
\<close>

theorem well_typed_document_returns:
  "(hide_label_document E data \<longrightarrow>
      returns (collect_hide_label_stats E data) \<and>
      returns (collect_hide_label_steps E data)) \<and>
   (argsort_ok (argsort E) \<and> open_race_document E data \<longrightarrow>
      returns (official_collect_open_race_histories E data) \<and>
      returns (bnd (collect_open_race_histories E data) aggregate_open_race_histories)) \<and>
   (hide_label_document E data \<and>
    (\<forall>opt. \<not> reports ''steps_to_target'' opt data \<and> \<not> reports ''mean_steps'' opt data) \<longrightarrow>
      collect_hide_label_stats E data = Inr [] \<and>
      collect_hide_label_steps E data = Inr []) \<and>
   (\<forall>c. find_competitions data = Inr c \<and> \<not> truthy c \<longrightarrow>
      collect_open_race_histories E data = Inr []) \<and>
   (\<forall>c. official_find_competitions data = Inr c \<and> \<not> truthy c \<longrightarrow>
      official_collect_open_race_histories E data = Inr []) \<and>
   (\<forall>kvs. data = JObj kvs \<and>
      ''items'' \<notin> fst ` set kvs \<and> ''all_tournament_results'' \<notin> fst ` set kvs \<and>
      ''results'' \<notin> fst ` set kvs \<and> ''tournament_results'' \<notin> fst ` set kvs \<and>
      ''competitions'' \<notin> fst ` set kvs \<longrightarrow>
      collect_hide_label_stats E data = Inr [] \<and>
      collect_hide_label_steps E data = Inr [] \<and>
      collect_open_race_histories E data = Inr [] \<and>
      official_collect_open_race_histories E data = Inr [])"
proof (intro conjI allI impI)
  assume "hide_label_document E data"
  then show "returns (collect_hide_label_stats E data)"
    and "returns (collect_hide_label_steps E data)"
    by (rule collect_hide_label_stats_returns, rule collect_hide_label_steps_returns)
next
  assume "argsort_ok (argsort E) \<and> open_race_document E data"
  then have "argsort_ok (argsort E)" and "open_race_document E data" by simp_all
  from open_race_returns [OF this]
  show "returns (official_collect_open_race_histories E data)"
    and "returns (bnd (collect_open_race_histories E data) aggregate_open_race_histories)"
    by simp_all
next
  assume a: "hide_label_document E data \<and>
    (\<forall>opt. \<not> reports ''steps_to_target'' opt data \<and> \<not> reports ''mean_steps'' opt data)"
  then have doc: "hide_label_document E data"
    and none: "\<forall>opt. \<not> reports ''steps_to_target'' opt data \<and> \<not> reports ''mean_steps'' opt data"
    by simp_all
  from collect_hide_label_stats_returns [OF doc] obtain out where
    out: "collect_hide_label_stats E data = Inr out"
    by (auto simp: returns_iff)
  from collect_hide_label_steps_returns [OF doc] obtain out' where
    out': "collect_hide_label_steps E data = Inr out'"
    by (auto simp: returns_iff)
  from nothing_reported_empty [OF none, of E out out'] out out'
  show "collect_hide_label_stats E data = Inr []"
    and "collect_hide_label_steps E data = Inr []"
    by simp_all
next
  fix c assume "find_competitions data = Inr c \<and> \<not> truthy c"
  then show "collect_open_race_histories E data = Inr []"
    by (simp add: collect_open_race_histories_find)
next
  fix c assume "official_find_competitions data = Inr c \<and> \<not> truthy c"
  then show "official_collect_open_race_histories E data = Inr []"
    by (simp add: official_collect_open_race_histories_find)
next
  fix kvs
  assume a: "data = JObj kvs \<and>
      ''items'' \<notin> fst ` set kvs \<and> ''all_tournament_results'' \<notin> fst ` set kvs \<and>
      ''results'' \<notin> fst ` set kvs \<and> ''tournament_results'' \<notin> fst ` set kvs \<and>
      ''competitions'' \<notin> fst ` set kvs"
  then have "collect_hide_label_stats E (JObj kvs) = Inr [] \<and>
         collect_hide_label_steps E (JObj kvs) = Inr [] \<and>
         collect_open_race_histories E (JObj kvs) = Inr [] \<and>
         official_collect_open_race_histories E (JObj kvs) = Inr []"
    by (intro no_recognized_key_empty) simp_all
  with a show "collect_hide_label_stats E data = Inr []"
    and "collect_hide_label_steps E data = Inr []"
    and "collect_open_race_histories E data = Inr []"
    and "official_collect_open_race_histories E data = Inr []"
    by simp_all
qed

theorem well_typed_document_returns_witness:
  "returns (collect_hide_label_stats default_env hide_label_example) \<and>
   returns (collect_hide_label_steps default_env hide_label_example) \<and>
   returns (official_collect_open_race_histories default_env open_race_example) \<and>
   returns (bnd (collect_open_race_histories default_env open_race_example)
              aggregate_open_race_histories) \<and>
   collect_hide_label_stats default_env (JObj [(''competitions'', JArr [])]) = Inr [] \<and>
   collect_hide_label_steps default_env (JObj [(''competitions'', JArr [])]) = Inr [] \<and>
   collect_open_race_histories default_env (JObj [(''competitions'', JArr [])]) = Inr [] \<and>
   official_collect_open_race_histories default_env (JObj [(''competitions'', JArr [])]) = Inr [] \<and>
   collect_hide_label_stats default_env (JObj [(''optimizer_names'', JArr [JStr ''A''])]) = Inr [] \<and>
   collect_hide_label_steps default_env (JObj [(''optimizer_names'', JArr [JStr ''A''])]) = Inr [] \<and>
   collect_open_race_histories default_env (JObj [(''optimizer_names'', JArr [JStr ''A''])]) = Inr [] \<and>
   official_collect_open_race_histories default_env (JObj [(''optimizer_names'', JArr [JStr ''A''])])
     = Inr []"
proof -
  have h: "argsort_ok (argsort default_env)"
    by (simp add: default_env_def stable_argsort_ok)
  have d1: "hide_label_document default_env hide_label_example"
    by (simp add: hide_label_example_def optional_def number_or_null_def)
  have d2: "open_race_document default_env open_race_example"
    by (simp add: open_race_example_def open_race_competitions_def optional_def
        step_or_null_def number_or_null_def)
  have d3: "hide_label_document default_env (JObj [(''competitions'', JArr [])])"
    by (simp add: optional_def)
  have n3: "\<forall>opt. \<not> reports ''steps_to_target'' opt (JObj [(''competitions'', JArr [])]) \<and>
                 \<not> reports ''mean_steps'' opt (JObj [(''competitions'', JArr [])])"
    by simp
  have f3: "find_competitions (JObj [(''competitions'', JArr [])]) = Inr (JArr [])"
    "official_find_competitions (JObj [(''competitions'', JArr [])]) = Inr (JArr [])"
    by (simp_all add: find_competitions_def official_find_competitions_def)
  have e3: "\<not> truthy (JArr [])" by simp
  from well_typed_document_returns [of default_env hide_label_example] d1
  have r1: "returns (collect_hide_label_stats default_env hide_label_example)"
    "returns (collect_hide_label_steps default_env hide_label_example)"
    by blast+
  from well_typed_document_returns [of default_env open_race_example] h d2
  have r2: "returns (official_collect_open_race_histories default_env open_race_example)"
    "returns (bnd (collect_open_race_histories default_env open_race_example)
              aggregate_open_race_histories)"
    by blast+
  from well_typed_document_returns [of default_env "JObj [(''competitions'', JArr [])]"]
    d3 n3 f3 e3
  have r3: "collect_hide_label_stats default_env (JObj [(''competitions'', JArr [])]) = Inr []"
    "collect_hide_label_steps default_env (JObj [(''competitions'', JArr [])]) = Inr []"
    "collect_open_race_histories default_env (JObj [(''competitions'', JArr [])]) = Inr []"
    "official_collect_open_race_histories default_env (JObj [(''competitions'', JArr [])]) = Inr []"
    by blast+
  from well_typed_document_returns
    [of default_env "JObj [(''optimizer_names'', JArr [JStr ''A''])]"]
  have r4: "collect_hide_label_stats default_env (JObj [(''optimizer_names'', JArr [JStr ''A''])]) = Inr []"
    "collect_hide_label_steps default_env (JObj [(''optimizer_names'', JArr [JStr ''A''])]) = Inr []"
    "collect_open_race_histories default_env (JObj [(''optimizer_names'', JArr [JStr ''A''])]) = Inr []"
    "official_collect_open_race_histories default_env (JObj [(''optimizer_names'', JArr [JStr ''A''])])
       = Inr []"
    by simp_all
  from r1 r2 r3 r4 show ?thesis by simp
qed

section \<open>Steps-to-target summaries of both scripts\<close>

lemma set_update_subset: "set (AList.update k v al) \<subseteq> insert (k, v) (set al)"
  by (induction al) auto

lemma mapM_length: "mapM f xs = Inr ys \<Longrightarrow> length ys = length xs"
  by (induction xs arbitrary: ys) (auto simp: bnd_Inr_iff)

lemma tournament_summaries_pooled:
  assumes "tournament_summaries tournament results = Inr out"
    and "\<forall>p\<in>set results. pooled_summary (snd p)"
  shows "\<forall>p\<in>set out. pooled_summary (snd p)"
proof -
  from assms(1) obtain optimizer_steps where
    loop: "foldM (\<lambda>(opt_name, steps_list) acc.
           if steps_list \<noteq> []
           then bnd (mapM py_number steps_list) (\<lambda>nums.
                  Inr (AList.update opt_name (summary_of nums) acc))
           else Inr acc) optimizer_steps results = Inr out"
    by (auto simp: tournament_summaries_def bnd_Inr_iff)
  show ?thesis
  proof (rule foldM_invariant [where P = "\<lambda>d. \<forall>p\<in>set d. pooled_summary (snd p)", OF loop assms(2)])
    fix x a b
    assume a: "\<forall>p\<in>set a. pooled_summary (snd p)"
      and step: "(case x of (opt_name, steps_list) \<Rightarrow> \<lambda>acc.
           if steps_list \<noteq> []
           then bnd (mapM py_number steps_list) (\<lambda>nums.
                  Inr (AList.update opt_name (summary_of nums) acc))
           else Inr acc) a = Inr b"
    obtain opt_name steps_list where x: "x = (opt_name, steps_list)" by (cases x)
    show "\<forall>p\<in>set b. pooled_summary (snd p)"
    proof (cases "steps_list = []")
      case True
      with step a show ?thesis by (simp add: x)
    next
      case False
      with step obtain nums where nums: "mapM py_number steps_list = Inr nums"
        and b: "b = AList.update opt_name (summary_of nums) a"
        by (auto simp: x bnd_Inr_iff)
      from mapM_length [OF nums] False have "nums \<noteq> []" by auto
      then have "pooled_summary (summary_of nums)" by (auto simp: pooled_summary_def)
      with a set_update_subset [of opt_name "summary_of nums" a] show ?thesis
        by (auto simp: b)
    qed
  qed
qed

lemma process_hide_label_file_statistics:
  assumes "process_hide_label_file data = Inr out" and "(name, s) \<in> set out"
  shows "\<exists>nums. nums \<noteq> [] \<and> s = summary_of nums \<and> count s = length nums \<and>
           min_steps s \<le> median_steps s \<and> median_steps s \<le> max_steps s"
proof -
  have "\<forall>p\<in>set out. pooled_summary (snd p)"
  proof (cases "py_contains ''tournament_results'' data = Inr True")
    case True
    with assms(1) obtain tournaments where
      loop: "foldM tournament_summaries tournaments [] = Inr out"
      by (auto simp: process_hide_label_file_def bnd_Inr_iff)
    show ?thesis
      by (rule foldM_invariant [where P = "\<lambda>d. \<forall>p\<in>set d. pooled_summary (snd p)", OF loop])
         (auto dest: tournament_summaries_pooled)
  next
    case False
    with assms(1) have "out = []"
      by (auto simp: process_hide_label_file_def bnd_Inr_iff split: if_splits)
    then show ?thesis by simp
  qed
  with assms(2) obtain nums where nums: "nums \<noteq> []" "s = summary_of nums"
    by (force simp: pooled_summary_def)
  with np_median_bounds [OF nums(1)] show ?thesis
    by (auto simp: summary_of_def)
qed

lemma collect_hide_label_stats_statistics:
  assumes "collect_hide_label_stats E data = Inr summary" and "map_of summary opt = Some s"
  shows "\<exists>steps_by_opt steps.
           hide_label_branches E data = Inr steps_by_opt \<and>
           map_of steps_by_opt opt = Some steps \<and> steps \<noteq> [] \<and>
           count s = length steps \<and>
           min_steps s \<le> median_steps s \<and> median_steps s \<le> max_steps s \<and>
           min_steps s = Min (set steps) \<and> max_steps s = Max (set steps) \<and>
           mean_steps s = sum_list steps / real (length steps) \<and>
           median_steps s =
             (if odd (length steps) then sort steps ! (length steps div 2)
              else (sort steps ! (length steps div 2 - 1) + sort steps ! (length steps div 2)) / 2)"
proof -
  from assms(1) obtain sbo where sbo: "hide_label_branches E data = Inr sbo"
    and summary: "summary = summarize sbo"
    by (auto simp: collect_hide_label_stats_def bnd_Inr_iff)
  have d: "distinct (map fst sbo)" by (rule hide_label_branches_distinct [OF sbo])
  from assms(2) obtain steps where steps: "map_of sbo opt = Some steps" "steps \<noteq> []"
    and s: "s = summary_of steps"
    by (auto simp: summary map_of_summarize [OF d] split: option.splits if_splits)
  have med: "median_steps s =
             (if odd (length steps) then sort steps ! (length steps div 2)
              else (sort steps ! (length steps div 2 - 1) + sort steps ! (length steps div 2)) / 2)"
    by (auto simp: s summary_of_def np_median_def np_mean_def Let_def odd_iff_mod_2_eq_one)
  show ?thesis
    using sbo steps np_median_bounds [OF steps(2)] med
    by (intro exI [of _ sbo] exI [of _ steps])
       (simp add: s summary_of_def np_min_eq np_max_eq np_mean_def)
qed

text \<open>
  C6. Every summary that \<^verbatim>\<open>collect_hide_label_stats\<close> emits for an optimizer comes from
  the non-empty list of values pooled for that optimizer: its count is the length of the
  list, its minimum and maximum are those of the list, its mean is the sum over the
  count, its median is the middle element of the sorted list or the midpoint of the two
  middle elements, and the minimum is at most the median, which is at most the maximum.
  The summaries of \<^verbatim>\<open>generate_data.process_hide_label_file\<close> are computed in the same way
  from a non-empty list of numbers and satisfy the same bounds.
\<close>

theorem summary_statistics:
  assumes "collect_hide_label_stats E data = Inr summary" and "map_of summary opt = Some s"
  shows "(\<exists>steps_by_opt steps.
           hide_label_branches E data = Inr steps_by_opt \<and>
           map_of steps_by_opt opt = Some steps \<and> steps \<noteq> [] \<and>
           count s = length steps \<and>
           min_steps s \<le> median_steps s \<and> median_steps s \<le> max_steps s \<and>
           min_steps s = Min (set steps) \<and> max_steps s = Max (set steps) \<and>
           mean_steps s = sum_list steps / real (length steps) \<and>
           median_steps s =
             (if odd (length steps) then sort steps ! (length steps div 2)
              else (sort steps ! (length steps div 2 - 1) + sort steps ! (length steps div 2)) / 2)) \<and>
         (process_hide_label_file data' = Inr results \<and> (opt', s') \<in> set results \<longrightarrow>
            (\<exists>nums. nums \<noteq> [] \<and> s' = summary_of nums \<and> count s' = length nums \<and>
               min_steps s' \<le> median_steps s' \<and> median_steps s' \<le> max_steps s'))"
proof (rule conjI)
  show "\<exists>steps_by_opt steps.
           hide_label_branches E data = Inr steps_by_opt \<and>
           map_of steps_by_opt opt = Some steps \<and> steps \<noteq> [] \<and>
           count s = length steps \<and>
           min_steps s \<le> median_steps s \<and> median_steps s \<le> max_steps s \<and>
           min_steps s = Min (set steps) \<and> max_steps s = Max (set steps) \<and>
           mean_steps s = sum_list steps / real (length steps) \<and>
           median_steps s =
             (if odd (length steps) then sort steps ! (length steps div 2)
              else (sort steps ! (length steps div 2 - 1) + sort steps ! (length steps div 2)) / 2)"
    by (rule collect_hide_label_stats_statistics [OF assms])
  show "process_hide_label_file data' = Inr results \<and> (opt', s') \<in> set results \<longrightarrow>
            (\<exists>nums. nums \<noteq> [] \<and> s' = summary_of nums \<and> count s' = length nums \<and>
               min_steps s' \<le> median_steps s' \<and> median_steps s' \<le> max_steps s')"
    using process_hide_label_file_statistics by blast
qed

theorem summary_statistics_witness:
  "collect_hide_label_stats default_env hide_label_example =
     Inr [(''A'', \<lparr>mean_steps = 9 / 2, median_steps = 9 / 2, min_steps = 3, max_steps = 6,
                    count = 2\<rparr>)] \<and>
   map_of [(''A'', \<lparr>mean_steps = 9 / 2, median_steps = 9 / 2, min_steps = 3, max_steps = 6,
                    count = 2\<rparr>)] ''A'' =
     Some \<lparr>mean_steps = 9 / 2, median_steps = 9 / 2, min_steps = 3, max_steps = 6, count = 2\<rparr> \<and>
   (\<exists>steps_by_opt steps.
      hide_label_branches default_env hide_label_example = Inr steps_by_opt \<and>
      map_of steps_by_opt ''A'' = Some steps \<and> steps \<noteq> [] \<and> 2 = length steps \<and>
      (3::real) \<le> 9 / 2 \<and> (9 / 2 :: real) \<le> 6 \<and>
      3 = Min (set steps) \<and> 6 = Max (set steps) \<and>
      9 / 2 = sum_list steps / real (length steps) \<and>
      9 / 2 = (if odd (length steps) then sort steps ! (length steps div 2)
               else (sort steps ! (length steps div 2 - 1) + sort steps ! (length steps div 2)) / 2))"
proof -
  have h1: "collect_hide_label_stats default_env hide_label_example =
     Inr [(''A'', \<lparr>mean_steps = 9 / 2, median_steps = 9 / 2, min_steps = 3, max_steps = 6,
                    count = 2\<rparr>)]"
    by (simp add: hide_label_example_def hide_label_defs)
  have h2: "map_of [(''A'', \<lparr>mean_steps = 9 / 2, median_steps = 9 / 2, min_steps = 3, max_steps = 6,
                    count = 2\<rparr>)] ''A'' =
     Some \<lparr>mean_steps = 9 / 2, median_steps = 9 / 2, min_steps = 3, max_steps = 6, count = 2\<rparr>"
    by simp
  show ?thesis
    using h1 h2 summary_statistics [OF h1 h2, THEN conjunct1] by simp
qed

end
